theory Spec2Isabelle
  imports Complex_Main "HOL-Library.Sublist"
begin

section \<open>Data model of the visual novel engine (engine.py)\<close>

text \<open>
  Python strings are modelled as \<open>string\<close>; a character stands for one code point
  (code points below 256 only).  Python floats are stored and compared, never
  computed with, and are modelled as \<open>real\<close>.  Python's unbounded integers are
  \<open>int\<close>.  The field \<open>text\<close> of the dataclasses is written \<open>choice_text\<close> and
  \<open>scene_text\<close>, and fields that occur in two dataclasses carry the class as a prefix.
\<close>

record character_definition =
  def_name :: string
  def_image_url :: string
  animated :: bool

record character_sprite =
  sprite_name :: string
  image_url :: string
  position :: string
  visible :: bool
  animation :: string
  scale :: real

record choice =
  choice_text :: string
  next_scene_index :: int

record input_request =
  prompt :: string
  variable_name :: string

record motor_command =
  motor_id :: int
  motor_position :: int

record robot_pose =
  head_x :: real
  head_y :: real
  head_z :: real
  head_roll :: real
  head_pitch :: real
  head_yaw :: real
  body_yaw :: real
  antenna_left :: real
  antenna_right :: real

text \<open>
  The field \<open>note\<close> of a scene is a label the Builder writes with an f-string and
  nobody reads.  It is kept as the fragments of that f-string, in order: literal text,
  a formatted integer, a formatted float, or a single character given by its code point.
\<close>

datatype fragment = FStr string | FInt int | FFloat real | FChar nat

text \<open>
  The dataclass \<open>SceneState\<close>.  The five fields that hold a reference to a mutable
  object (the character dict, the choice list, the input request, the motor command
  list, the robot pose) are type parameters: in the Builder's store they are addresses,
  in a scene read out of the store they are the values found there.
\<close>

record ('d, 'c, 'i, 'm, 'p) scene =
  background_url :: string
  background_label :: string
  characters :: 'd
  speaker :: string
  scene_text :: string
  scene_note :: "fragment list"
  show_camera :: bool
  show_voice :: bool
  show_motors :: bool
  show_robot :: bool
  background_blur :: int
  stage_url :: string
  stage_blur :: int
  choices :: "'c option"
  input_request :: "'i option"
  path :: "string option"
  motor_commands :: 'm
  audio_file :: "string option"
  robot_pose :: "'p option"

type_synonym scene_state =
  "((string \<times> character_sprite) list, choice list, input_request,
    motor_command list, robot_pose) scene"

section \<open>The Navigator (app.py)\<close>

datatype py_error = IndexError

text \<open>
  The outcome of a call: it returns, it raises, or it never comes back.  An exception
  carries no state: what a handler has written into \<open>story_state\<close> before it raises
  (\<open>handle_choice\<close> writes the index before it reads the target scene) is not kept.
\<close>

datatype 'a result = Returns 'a | Raises py_error | Diverges

text \<open>
  The dict \<open>story_state\<close>.  \<open>variables\<close> is a Python dict, whose iteration order is
  the insertion order: an association list in that order, one entry per key.
\<close>

record story_state =
  scenes :: "scene_state list"
  index :: int
  variables :: "(string \<times> string) list"
  active_paths :: "string set"

text \<open>\<open>d[k] = v\<close> on a dict: an existing key keeps its place, a new one goes last.\<close>

fun dict_set :: "('k \<times> 'v) list \<Rightarrow> 'k \<Rightarrow> 'v \<Rightarrow> ('k \<times> 'v) list" where
  "dict_set [] k v = [(k, v)]"
| "dict_set ((k', v') # d) k v =
     (if k' = k then (k, v) # d else (k', v') # dict_set d k v)"

text \<open>\<open>xs[i]\<close> on a list: a negative index counts from the end, out of range raises.\<close>

definition py_index :: "'a list \<Rightarrow> int \<Rightarrow> 'a option" where
  "py_index xs i =
     (let n = int (length xs) in
      if 0 \<le> i \<and> i < n then Some (xs ! nat i)
      else if - n \<le> i \<and> i < 0 then Some (xs ! nat (n + i))
      else None)"

subsection \<open>Text rendering\<close>

text \<open>\<open>str.isspace\<close> on the code points below 256.\<close>

definition isspace :: "char \<Rightarrow> bool" where
  "isspace c =
     (let n = (of_char c :: nat) in
      (9 \<le> n \<and> n \<le> 13) \<or> (28 \<le> n \<and> n \<le> 32) \<or> n = 133 \<or> n = 160)"

definition strip :: "string \<Rightarrow> string" where
  "strip s = rev (dropWhile isspace (rev (dropWhile isspace s)))"

text \<open>
  \<open>s.replace(old, new)\<close>: the occurrences of \<open>old\<close> are found from the left and do
  not overlap; an empty \<open>old\<close> matches before every character and at the end.
\<close>

function py_replace :: "string \<Rightarrow> string \<Rightarrow> string \<Rightarrow> string" where
  "py_replace old new s =
     (if old = [] then new @ concat (map (\<lambda>c. c # new) s)
      else if s = [] then []
      else if prefix old s then new @ py_replace old new (drop (length old) s)
      else hd s # py_replace old new (tl s))"
  by pat_completeness auto
termination
  by (relation "measure (\<lambda>(old, new, s). length s)") auto

declare py_replace.simps [simp del]

text \<open>The pattern \<open>f"{{{var_name}}}"\<close>.\<close>

definition placeholder :: "string \<Rightarrow> string" where
  "placeholder var_name = CHR ''{'' # var_name @ [CHR ''}'']"

text \<open>
  The text of the speech bubble in \<open>render_scene\<close>: the stripped scene text, then one
  \<open>replace\<close> per entry of \<open>variables.items()\<close>, in the dict's order.
\<close>

definition render_text :: "string \<Rightarrow> (string \<times> string) list \<Rightarrow> string" where
  "render_text txt vars =
     foldl (\<lambda>text_content (var_name, var_value).
              py_replace (placeholder var_name) var_value text_content)
           (strip txt) vars"

subsection \<open>Texts as literal pieces and placeholders\<close>

text \<open>
  To speak about "every placeholder of a text", a text is given as a sequence of
  pieces: literal runs, and placeholders \<open>{name}\<close>.  A piece is well formed when a
  literal run holds no opening brace and a placeholder's name holds no brace at all.
\<close>

datatype piece = Lit string | Hole string

definition brace_free :: "string \<Rightarrow> bool" where
  "brace_free s = (CHR ''{'' \<notin> set s \<and> CHR ''}'' \<notin> set s)"

fun piece_text :: "piece \<Rightarrow> string" where
  "piece_text (Lit s) = s"
| "piece_text (Hole n) = placeholder n"

definition pieces_text :: "piece list \<Rightarrow> string" where
  "pieces_text ps = concat (map piece_text ps)"

fun well_formed_piece :: "piece \<Rightarrow> bool" where
  "well_formed_piece (Lit s) = (CHR ''{'' \<notin> set s)"
| "well_formed_piece (Hole n) = brace_free n"

text \<open>
  The rendering rule in the specification's words: a placeholder whose name is a key
  of the variables is replaced by that variable's value, any other placeholder is left
  verbatim.
\<close>

fun substituted_piece :: "(string \<times> string) list \<Rightarrow> piece \<Rightarrow> string" where
  "substituted_piece vars (Lit s) = s"
| "substituted_piece vars (Hole n) =
     (case map_of vars n of Some v \<Rightarrow> v | None \<Rightarrow> placeholder n)"

definition substituted :: "(string \<times> string) list \<Rightarrow> piece list \<Rightarrow> string" where
  "substituted vars ps = concat (map (substituted_piece vars) ps)"

text \<open>One \<open>replace\<close> seen on the pieces: the placeholders of one name become literal.\<close>

fun fill :: "string \<Rightarrow> string \<Rightarrow> piece \<Rightarrow> piece" where
  "fill n v (Lit s) = Lit s"
| "fill n v (Hole m) = (if m = n then Lit v else Hole m)"

subsection \<open>The outputs of a handler\<close>

text \<open>
  What the nineteen outputs of a handler carry besides the story state.  The markup
  around these values (the HTML of the stage, the hint sentences, the Gradio update
  dicts) is string formatting of them and is left out.
\<close>

record view =
  v_dialogue :: string
  v_label :: string
  v_number :: int
  v_total :: int
  v_background :: "string \<times> int"
  v_stage :: "string \<times> int"
  v_characters :: "character_sprite list"
  v_speaker :: string
  v_text :: string
  v_show_camera :: bool
  v_show_voice :: bool
  v_show_motors :: bool
  v_show_robot :: bool
  v_choices :: "(string \<times> nat) list"
  v_choices_visible :: bool
  v_input_prompt :: string
  v_input_visible :: bool
  v_nav_enabled :: bool
  v_right_column_visible :: bool

text \<open>
  \<open>render_scene\<close> followed by the assembly of the outputs, which the three handlers
  repeat word for word: \<open>nav_enabled\<close> is \<open>not bool(choices) and not bool(input_req)\<close>.
\<close>

definition render_scene ::
  "scene_state \<Rightarrow> int \<Rightarrow> int \<Rightarrow> (string \<times> string) list \<Rightarrow> view" where
  "render_scene scene idx n_scenes vars =
     (let chs = (case choices scene of None \<Rightarrow> [] | Some cs \<Rightarrow> cs) in
      \<lparr> v_dialogue = '''',
        v_label = (if background_label scene = [] then ''Scene'' else background_label scene),
        v_number = idx + 1,
        v_total = n_scenes,
        v_background = (background_url scene, background_blur scene),
        v_stage = (stage_url scene, stage_blur scene),
        v_characters = filter visible (map snd (characters scene)),
        v_speaker = speaker scene,
        v_text = render_text (scene_text scene) vars,
        v_show_camera = show_camera scene,
        v_show_voice = show_voice scene,
        v_show_motors = show_motors scene,
        v_show_robot = show_robot scene,
        v_choices = zip (map choice_text chs) [0 ..< length chs],
        v_choices_visible = (chs \<noteq> []),
        v_input_prompt =
          (case input_request scene of None \<Rightarrow> '''' | Some r \<Rightarrow> ''### '' @ prompt r),
        v_input_visible = (input_request scene \<noteq> None),
        v_nav_enabled = (chs = [] \<and> input_request scene = None),
        v_right_column_visible =
          (show_camera scene \<or> show_voice scene \<or> show_motors scene \<or> show_robot scene) \<rparr>)"

text \<open>The outputs of \<open>change_scene\<close> when there are no scenes.\<close>

definition no_scenes_view :: view where
  "no_scenes_view =
     \<lparr> v_dialogue = ''No scenes available.'',
       v_label = '''', v_number = 0, v_total = 0,
       v_background = ('''', 0), v_stage = ('''', 0), v_characters = [],
       v_speaker = '''', v_text = '''',
       v_show_camera = False, v_show_voice = False,
       v_show_motors = False, v_show_robot = False,
       v_choices = [], v_choices_visible = False,
       v_input_prompt = '''', v_input_visible = False,
       v_nav_enabled = True, v_right_column_visible = False \<rparr>"

subsection \<open>Navigation\<close>

definition is_scene_accessible :: "scene_state \<Rightarrow> string set \<Rightarrow> bool" where
  "is_scene_accessible scene paths =
     (case path scene of None \<Rightarrow> True | Some p \<Rightarrow> p \<in> paths)"

text \<open>
  Accessibility as the specification words it, to be compared with the function above:
  a scene is accessible iff its path is absent or is a member of the active paths.
\<close>

definition spec_accessible :: "scene_state \<Rightarrow> string set \<Rightarrow> bool" where
  "spec_accessible scene paths = (path scene = None \<or> path scene \<in> Some ` paths)"

text \<open>
  The \<open>while\<close> loop of \<open>change_scene\<close>; \<open>None\<close> is a loop that never ends (with
  \<open>direction = 0\<close> on a scene that is not accessible, \<open>search_index\<close> never moves).
\<close>

partial_function (option) find_scene ::
  "scene_state list \<Rightarrow> string set \<Rightarrow> int \<Rightarrow> int \<Rightarrow> int \<Rightarrow> int option" where
  "find_scene scs paths direction new_index search_index =
     (if 0 \<le> search_index \<and> search_index < int (length scs) then
        (if is_scene_accessible (scs ! nat search_index) paths then Some search_index
         else find_scene scs paths direction new_index (search_index + direction))
      else Some new_index)"

definition change_scene :: "story_state \<Rightarrow> int \<Rightarrow> (story_state \<times> view) result" where
  "change_scene st direction =
     (if scenes st = [] then Returns (st, no_scenes_view)
      else
        (case find_scene (scenes st) (active_paths st) direction (index st)
                (index st + direction) of
           None \<Rightarrow> Diverges
         | Some new_index \<Rightarrow>
             (case py_index (scenes st) new_index of
                None \<Rightarrow> Raises IndexError
              | Some scene \<Rightarrow>
                  Returns (st\<lparr>index := new_index\<rparr>,
                           render_scene scene new_index (int (length (scenes st)))
                             (variables st)))))"

definition handle_choice :: "story_state \<Rightarrow> int \<Rightarrow> (story_state \<times> view) result" where
  "handle_choice st choice_index =
     (case py_index (scenes st) (index st) of
        None \<Rightarrow> Raises IndexError
      | Some current_scene \<Rightarrow>
          (let chs = (case choices current_scene of None \<Rightarrow> [] | Some cs \<Rightarrow> cs) in
           if chs \<noteq> [] \<and> 0 \<le> choice_index \<and> choice_index < int (length chs) then
             (let chosen = chs ! nat choice_index in
              case py_index (scenes st) (next_scene_index chosen) of
                None \<Rightarrow> Raises IndexError
              | Some target_scene \<Rightarrow>
                  (let st' = st\<lparr>index := next_scene_index chosen\<rparr>;
                       st'' = (case path target_scene of
                                 None \<Rightarrow> st'
                               | Some p \<Rightarrow>
                                   if p = [] then st'
                                   else st'\<lparr>active_paths := insert p (active_paths st)\<rparr>)
                   in Returns (st'',
                        render_scene target_scene (next_scene_index chosen)
                          (int (length (scenes st))) (variables st))))
           else change_scene st 0))"

definition handle_input :: "story_state \<Rightarrow> string \<Rightarrow> (story_state \<times> view) result" where
  "handle_input st user_input =
     (case py_index (scenes st) (index st) of
        None \<Rightarrow> Raises IndexError
      | Some current_scene \<Rightarrow>
          (let vars = (case input_request current_scene of
                         None \<Rightarrow> variables st
                       | Some r \<Rightarrow>
                           if user_input \<noteq> [] then
                             dict_set (variables st) (variable_name r) user_input
                           else variables st);
               new_index = min (index st + 1) (int (length (scenes st)) - 1)
           in case py_index (scenes st) new_index of
                None \<Rightarrow> Raises IndexError
              | Some scene \<Rightarrow>
                  Returns (st\<lparr>index := new_index, variables := vars\<rparr>,
                           render_scene scene new_index (int (length (scenes st))) vars)))"

section \<open>The Builder (engine.py)\<close>

subsection \<open>The store\<close>

text \<open>
  The Builder mutates objects that it also hands out: the scene list it returns from
  \<open>build\<close> is the list it keeps appending to, and \<open>add_choice\<close> writes into a scene
  that is already in that list.  Objects therefore live in a store, at addresses; a
  new object takes the next free address.  The objects are the instances of the
  dataclasses, the dicts from a character name to a sprite, and the lists of
  references (the scene list, a choice list, a motor command list).
\<close>

type_synonym addr = nat

type_synonym scene_obj = "(addr, addr, addr, addr, addr) scene"

datatype obj =
    Sprite character_sprite
  | SpriteDict "(string \<times> addr) list"
  | RefList "addr list"
  | ChoiceObj choice
  | InputObj input_request
  | MotorObj motor_command
  | PoseObj robot_pose
  | SceneObj scene_obj

type_synonym heap = "obj list"

definition lookup :: "heap \<Rightarrow> addr \<Rightarrow> obj option" where
  "lookup h a = (if a < length h then Some (h ! a) else None)"

definition alloc :: "heap \<Rightarrow> obj \<Rightarrow> heap \<times> addr" where
  "alloc h ob = (h @ [ob], length h)"

definition store :: "heap \<Rightarrow> addr \<Rightarrow> obj \<Rightarrow> heap" where
  "store h a ob = h[a := ob]"

definition scene_at :: "heap \<Rightarrow> addr \<Rightarrow> scene_obj option" where
  "scene_at h a = (case lookup h a of Some (SceneObj s) \<Rightarrow> Some s | _ \<Rightarrow> None)"

definition sprite_at :: "heap \<Rightarrow> addr \<Rightarrow> character_sprite option" where
  "sprite_at h a = (case lookup h a of Some (Sprite s) \<Rightarrow> Some s | _ \<Rightarrow> None)"

definition choice_at :: "heap \<Rightarrow> addr \<Rightarrow> choice option" where
  "choice_at h a = (case lookup h a of Some (ChoiceObj c) \<Rightarrow> Some c | _ \<Rightarrow> None)"

definition input_at :: "heap \<Rightarrow> addr \<Rightarrow> input_request option" where
  "input_at h a = (case lookup h a of Some (InputObj r) \<Rightarrow> Some r | _ \<Rightarrow> None)"

definition motor_at :: "heap \<Rightarrow> addr \<Rightarrow> motor_command option" where
  "motor_at h a = (case lookup h a of Some (MotorObj m) \<Rightarrow> Some m | _ \<Rightarrow> None)"

definition pose_at :: "heap \<Rightarrow> addr \<Rightarrow> robot_pose option" where
  "pose_at h a = (case lookup h a of Some (PoseObj p) \<Rightarrow> Some p | _ \<Rightarrow> None)"

definition dict_at :: "heap \<Rightarrow> addr \<Rightarrow> (string \<times> addr) list option" where
  "dict_at h a = (case lookup h a of Some (SpriteDict es) \<Rightarrow> Some es | _ \<Rightarrow> None)"

definition list_at :: "heap \<Rightarrow> addr \<Rightarrow> addr list option" where
  "list_at h a = (case lookup h a of Some (RefList xs) \<Rightarrow> Some xs | _ \<Rightarrow> None)"

text \<open>The entries of a dict and the elements of a list (none where there is no such object).\<close>

definition dict_items :: "heap \<Rightarrow> addr \<Rightarrow> (string \<times> addr) list" where
  "dict_items h a = (case dict_at h a of Some es \<Rightarrow> es | None \<Rightarrow> [])"

definition list_items :: "heap \<Rightarrow> addr \<Rightarrow> addr list" where
  "list_items h a = (case list_at h a of Some xs \<Rightarrow> xs | None \<Rightarrow> [])"

text \<open>In-place updates of an object; an address that holds another kind of object is left alone.\<close>

definition update_scene :: "heap \<Rightarrow> addr \<Rightarrow> (scene_obj \<Rightarrow> scene_obj) \<Rightarrow> heap" where
  "update_scene h a f =
     (case scene_at h a of Some s \<Rightarrow> store h a (SceneObj (f s)) | None \<Rightarrow> h)"

definition update_sprite ::
  "heap \<Rightarrow> addr \<Rightarrow> (character_sprite \<Rightarrow> character_sprite) \<Rightarrow> heap" where
  "update_sprite h a f =
     (case sprite_at h a of Some s \<Rightarrow> store h a (Sprite (f s)) | None \<Rightarrow> h)"

text \<open>\<open>xs.append(x)\<close> and \<open>d[k] = x\<close> on the list or dict at an address.\<close>

definition list_append :: "heap \<Rightarrow> addr \<Rightarrow> addr \<Rightarrow> heap" where
  "list_append h l x =
     (case list_at h l of Some xs \<Rightarrow> store h l (RefList (xs @ [x])) | None \<Rightarrow> h)"

definition dict_store :: "heap \<Rightarrow> addr \<Rightarrow> string \<Rightarrow> addr \<Rightarrow> heap" where
  "dict_store h d k x =
     (case dict_at h d of Some es \<Rightarrow> store h d (SpriteDict (dict_set es k x)) | None \<Rightarrow> h)"

subsection \<open>Reading values out of the store\<close>

text \<open>
  The value of a scene: the scene with every reference replaced by what it points
  to.  \<open>None\<close> when a reference does not lead to an object of the expected kind.
\<close>

definition read_dict :: "heap \<Rightarrow> addr \<Rightarrow> (string \<times> character_sprite) list option" where
  "read_dict h d =
     (case dict_at h d of
        None \<Rightarrow> None
      | Some es \<Rightarrow> those (map (\<lambda>(k, a). map_option (Pair k) (sprite_at h a)) es))"

definition read_list :: "(heap \<Rightarrow> addr \<Rightarrow> 'a option) \<Rightarrow> heap \<Rightarrow> addr \<Rightarrow> 'a list option" where
  "read_list rd h l =
     (case list_at h l of None \<Rightarrow> None | Some xs \<Rightarrow> those (map (rd h) xs))"

definition read_opt :: "(addr \<Rightarrow> 'a option) \<Rightarrow> addr option \<Rightarrow> 'a option option" where
  "read_opt rd r = (case r of None \<Rightarrow> Some None | Some a \<Rightarrow> map_option Some (rd a))"

definition read_scene :: "heap \<Rightarrow> addr \<Rightarrow> scene_state option" where
  "read_scene h a =
     (case scene_at h a of
        None \<Rightarrow> None
      | Some s \<Rightarrow>
          (case (read_dict h (characters s),
                 read_opt (read_list choice_at h) (choices s),
                 read_opt (input_at h) (input_request s),
                 read_list motor_at h (motor_commands s),
                 read_opt (pose_at h) (robot_pose s)) of
             (Some cs, Some chs, Some inp, Some ms, Some pose) \<Rightarrow>
               Some \<lparr> background_url = background_url s,
                      background_label = background_label s,
                      characters = cs,
                      speaker = speaker s,
                      scene_text = scene_text s,
                      scene_note = scene_note s,
                      show_camera = show_camera s,
                      show_voice = show_voice s,
                      show_motors = show_motors s,
                      show_robot = show_robot s,
                      background_blur = background_blur s,
                      stage_url = stage_url s,
                      stage_blur = stage_blur s,
                      choices = chs,
                      input_request = inp,
                      path = path s,
                      motor_commands = ms,
                      audio_file = audio_file s,
                      robot_pose = pose \<rparr>
           | _ \<Rightarrow> None))"

definition read_graph :: "heap \<Rightarrow> addr \<Rightarrow> scene_state list option" where
  "read_graph h g = read_list read_scene h g"

text \<open>
  The addresses a value is read from: the object itself and everything it refers to.
  Writing to any other address leaves the value as it is.
\<close>

definition dict_fp :: "heap \<Rightarrow> addr \<Rightarrow> addr list" where
  "dict_fp h d = d # map snd (dict_items h d)"

definition list_fp :: "heap \<Rightarrow> addr \<Rightarrow> addr list" where
  "list_fp h l = l # list_items h l"

definition opt_fp :: "(addr \<Rightarrow> addr list) \<Rightarrow> addr option \<Rightarrow> addr list" where
  "opt_fp fp r = (case r of None \<Rightarrow> [] | Some a \<Rightarrow> fp a)"

definition scene_fp :: "heap \<Rightarrow> addr \<Rightarrow> addr list" where
  "scene_fp h a =
     a # (case scene_at h a of
            None \<Rightarrow> []
          | Some s \<Rightarrow>
              dict_fp h (characters s) @ opt_fp (list_fp h) (choices s)
              @ opt_fp (\<lambda>i. [i]) (input_request s) @ list_fp h (motor_commands s)
              @ opt_fp (\<lambda>p. [p]) (robot_pose s))"

subsection \<open>The Builder's fields and methods\<close>

text \<open>
  \<open>_states\<close> and \<open>_current_sprites\<close> are references into the store.
  \<open>_character_defs\<close> is written by \<open>set_characters\<close> and never read; it is kept by
  value.
\<close>

record builder =
  states :: addr
  character_defs :: "(string \<times> character_definition) list"
  current_background :: string
  current_label :: string
  current_sprites :: addr
  current_show_camera :: bool
  current_show_voice :: bool
  current_show_motors :: bool
  current_show_robot :: bool
  current_background_blur :: int
  current_stage :: string
  current_stage_blur :: int
  current_path :: "string option"

definition DEFAULT_BACKGROUND :: string where
  "DEFAULT_BACKGROUND =
     ''https://images.unsplash.com/photo-1506744038136-46273834b3fb?auto=format&fit=crop&w=1200&q=80''"

text \<open>\<open>__init__\<close>, in an empty store: the scene list and the sprite dict are new objects.\<close>

definition new_builder :: "heap \<times> builder" where
  "new_builder =
     (let (h1, l) = alloc [] (RefList []);
          (h2, d) = alloc h1 (SpriteDict [])
      in (h2,
          \<lparr> states = l, character_defs = [],
            current_background = DEFAULT_BACKGROUND, current_label = '''',
            current_sprites = d,
            current_show_camera = False, current_show_voice = False,
            current_show_motors = False, current_show_robot = False,
            current_background_blur = 0, current_stage = '''', current_stage_blur = 0,
            current_path = None \<rparr>))"

text \<open>
  \<open>copy.deepcopy\<close> of a sprite dict: a new dict with a new sprite object for every
  entry.  (No two entries of a Builder's dict share a sprite object, so the memo of
  \<open>deepcopy\<close> is never hit.)
\<close>

fun copy_sprites :: "heap \<Rightarrow> (string \<times> addr) list \<Rightarrow> heap \<times> (string \<times> addr) list" where
  "copy_sprites h [] = (h, [])"
| "copy_sprites h ((k, a) # es) =
     (case sprite_at h a of
        None \<Rightarrow> copy_sprites h es
      | Some s \<Rightarrow>
          (let (h1, a') = alloc h (Sprite s);
               (h2, es') = copy_sprites h1 es
           in (h2, (k, a') # es')))"

definition deepcopy_dict :: "heap \<Rightarrow> addr \<Rightarrow> heap \<times> addr" where
  "deepcopy_dict h d =
     (let (h1, es') = copy_sprites h (dict_items h d) in alloc h1 (SpriteDict es'))"

definition clone_state :: "heap \<Rightarrow> builder \<Rightarrow> heap \<times> addr" where
  "clone_state h b =
     (let (h1, d) = deepcopy_dict h (current_sprites b);
          (h2, m) = alloc h1 (RefList [])
      in alloc h2
           (SceneObj
              \<lparr> background_url = current_background b,
                background_label = current_label b,
                characters = d,
                speaker = '''',
                scene_text = '''',
                scene_note = [],
                show_camera = current_show_camera b,
                show_voice = current_show_voice b,
                show_motors = current_show_motors b,
                show_robot = current_show_robot b,
                background_blur = current_background_blur b,
                stage_url = current_stage b,
                stage_blur = current_stage_blur b,
                choices = None,
                input_request = None,
                path = current_path b,
                motor_commands = m,
                audio_file = None,
                robot_pose = None \<rparr>))"

definition push_state :: "heap \<Rightarrow> builder \<Rightarrow> addr \<Rightarrow> heap \<times> builder" where
  "push_state h b a =
     (let h1 = list_append h (states b) a in
      case scene_at h1 a of
        None \<Rightarrow> (h1, b)
      | Some s \<Rightarrow>
          (let (h2, d) = deepcopy_dict h1 (characters s)
           in (h2, b\<lparr> current_background := background_url s,
                      current_label := background_label s,
                      current_sprites := d \<rparr>)))"

text \<open>
  The methods that emit a scene all have the same shape: clone the running state,
  change the clone, push it.  \<open>emit\<close> is that shape; the change is its argument.
\<close>

definition emit :: "(heap \<Rightarrow> addr \<Rightarrow> heap) \<Rightarrow> heap \<times> builder \<Rightarrow> heap \<times> builder" where
  "emit change hb =
     (let (h, b) = hb;
          (h1, a) = clone_state h b;
          h2 = change h1 a
      in push_state h2 b a)"

text \<open>\<open>if name in state.characters: state.characters[name].f = ...\<close>\<close>

definition with_character ::
  "string \<Rightarrow> (character_sprite \<Rightarrow> character_sprite) \<Rightarrow> heap \<Rightarrow> addr \<Rightarrow> heap" where
  "with_character nm f h a =
     (case scene_at h a of
        None \<Rightarrow> h
      | Some s \<Rightarrow>
          (case map_of (dict_items h (characters s)) nm of
             None \<Rightarrow> h
           | Some sa \<Rightarrow> update_sprite h sa f))"

definition set_note :: "fragment list \<Rightarrow> heap \<Rightarrow> addr \<Rightarrow> heap" where
  "set_note n h a = update_scene h a (\<lambda>s. s\<lparr>scene_note := n\<rparr>)"

text \<open>\<open>state.motor_commands.append(MotorCommand(motor_id=..., position=...))\<close>\<close>

definition append_motor :: "int \<times> int \<Rightarrow> heap \<Rightarrow> addr \<Rightarrow> heap" where
  "append_motor c h a =
     (case scene_at h a of
        None \<Rightarrow> h
      | Some s \<Rightarrow>
          (let (h1, m) = alloc h (MotorObj \<lparr>motor_id = fst c, motor_position = snd c\<rparr>)
           in list_append h1 (motor_commands s) m))"

definition set_characters :: "character_definition list \<Rightarrow> heap \<times> builder \<Rightarrow> heap \<times> builder" where
  "set_characters chars hb =
     foldl (\<lambda>(h, b) ch.
              (let (h1, sa) = alloc h (Sprite \<lparr> sprite_name = def_name ch,
                                               image_url = def_image_url ch,
                                               position = ''center'',
                                               visible = False,
                                               animation = (if animated ch then ''idle'' else ''''),
                                               scale = 1 \<rparr>)
               in (dict_store h1 (current_sprites b) (def_name ch) sa,
                   b\<lparr>character_defs := dict_set (character_defs b) (def_name ch) ch\<rparr>)))
           hb chars"

definition set_background :: "string \<Rightarrow> string \<Rightarrow> heap \<times> builder \<Rightarrow> heap \<times> builder" where
  "set_background url label =
     emit (\<lambda>h a. update_scene h a
             (\<lambda>s. s\<lparr> background_url := url, background_label := label,
                      scene_note := [FStr ''Background: '',
                                     FStr (if label = [] then ''custom'' else label)] \<rparr>))"

definition show_character :: "string \<Rightarrow> string \<Rightarrow> heap \<times> builder \<Rightarrow> heap \<times> builder" where
  "show_character nm pos =
     emit (\<lambda>h a. set_note [FStr ''Show '', FStr nm, FStr '' at '', FStr pos]
                   (with_character nm (\<lambda>c. c\<lparr>visible := True, position := pos\<rparr>) h a) a)"

definition hide_character :: "string \<Rightarrow> heap \<times> builder \<Rightarrow> heap \<times> builder" where
  "hide_character nm =
     emit (\<lambda>h a. set_note [FStr ''Hide '', FStr nm]
                   (with_character nm (\<lambda>c. c\<lparr>visible := False\<rparr>) h a) a)"

definition move_character :: "string \<Rightarrow> string \<Rightarrow> heap \<times> builder \<Rightarrow> heap \<times> builder" where
  "move_character nm pos =
     emit (\<lambda>h a. set_note [FStr ''Move '', FStr nm, FStr '' to '', FStr pos]
                   (with_character nm (\<lambda>c. c\<lparr>position := pos\<rparr>) h a) a)"

definition change_character_sprite ::
  "string \<Rightarrow> string \<Rightarrow> heap \<times> builder \<Rightarrow> heap \<times> builder" where
  "change_character_sprite nm url =
     emit (\<lambda>h a. set_note [FStr ''Change '', FStr nm, FStr '' sprite'']
                   (with_character nm (\<lambda>c. c\<lparr>image_url := url\<rparr>) h a) a)"

definition set_character_animation ::
  "string \<Rightarrow> string \<Rightarrow> heap \<times> builder \<Rightarrow> heap \<times> builder" where
  "set_character_animation nm anim =
     emit (\<lambda>h a. set_note [FStr nm, FStr '' animation: '',
                            FStr (if anim = [] then ''none'' else anim)]
                   (with_character nm (\<lambda>c. c\<lparr>animation := anim\<rparr>) h a) a)"

definition set_character_scale :: "string \<Rightarrow> real \<Rightarrow> heap \<times> builder \<Rightarrow> heap \<times> builder" where
  "set_character_scale nm sc =
     emit (\<lambda>h a. set_note [FStr nm, FStr '' scale: '', FFloat sc]
                   (with_character nm (\<lambda>c. c\<lparr>scale := sc\<rparr>) h a) a)"

definition dialogue :: "string \<Rightarrow> string \<Rightarrow> heap \<times> builder \<Rightarrow> heap \<times> builder" where
  "dialogue spk txt =
     emit (\<lambda>h a. update_scene h a
             (\<lambda>s. s\<lparr> speaker := spk, scene_text := txt,
                      scene_note := [FStr spk, FStr '': '', FStr (take 30 txt), FStr ''...''] \<rparr>))"

definition narration :: "string \<Rightarrow> heap \<times> builder \<Rightarrow> heap \<times> builder" where
  "narration txt =
     emit (\<lambda>h a. update_scene h a
             (\<lambda>s. s\<lparr> speaker := '''', scene_text := txt,
                      scene_note := [FStr ''Narration: '', FStr (take 30 txt), FStr ''...''] \<rparr>))"

definition request_input :: "string \<Rightarrow> string \<Rightarrow> heap \<times> builder \<Rightarrow> heap \<times> builder" where
  "request_input prm var =
     emit (\<lambda>h a.
             (let (h1, i) = alloc h (InputObj \<lparr>prompt = prm, variable_name = var\<rparr>)
              in update_scene h1 a
                   (\<lambda>s. s\<lparr> input_request := Some i,
                            scene_note := [FStr ''Input: '', FStr var] \<rparr>)))"

definition send_motor_command :: "int \<Rightarrow> int \<Rightarrow> heap \<times> builder \<Rightarrow> heap \<times> builder" where
  "send_motor_command mid pos =
     emit (\<lambda>h a. set_note [FStr ''Motor '', FInt mid, FStr '' '', FChar 0x2192, FStr '' '',
                            FInt pos, FChar 0xB0]
                   (append_motor (mid, pos) h a) a)"

definition send_motor_commands :: "(int \<times> int) list \<Rightarrow> heap \<times> builder \<Rightarrow> heap \<times> builder" where
  "send_motor_commands cmds =
     emit (\<lambda>h a. set_note [FStr ''Motors: '', FInt (int (length cmds)), FStr '' commands'']
                   (foldl (\<lambda>h' c. append_motor c h' a) h cmds) a)"

definition send_robot_pose :: "robot_pose \<Rightarrow> heap \<times> builder \<Rightarrow> heap \<times> builder" where
  "send_robot_pose pose =
     emit (\<lambda>h a.
             (let (h1, p) = alloc h (PoseObj pose)
              in update_scene h1 a
                   (\<lambda>s. s\<lparr> robot_pose := Some p,
                            scene_note := [FStr ''Robot pose command''] \<rparr>)))"

definition play_sound :: "string \<Rightarrow> heap \<times> builder \<Rightarrow> heap \<times> builder" where
  "play_sound file =
     emit (\<lambda>h a. update_scene h a
             (\<lambda>s. s\<lparr> audio_file := Some file,
                      scene_note := [FStr ''Audio: '', FStr file] \<rparr>))"

text \<open>
  \<open>add_choice\<close> writes into \<open>self._states[-1]\<close>, the scene emitted last: it gives it a
  choice list if it has none, and appends a new \<open>Choice\<close> to that list.  With no scene
  emitted it does nothing.
\<close>

definition add_choice_to :: "string \<Rightarrow> int \<Rightarrow> heap \<Rightarrow> addr \<Rightarrow> heap" where
  "add_choice_to txt nxt h a =
     (case scene_at h a of
        None \<Rightarrow> h
      | Some s \<Rightarrow>
          (let (h1, l) =
                 (case choices s of
                    None \<Rightarrow>
                      (let (h', l') = alloc h (RefList [])
                       in (update_scene h' a (\<lambda>s. s\<lparr>choices := Some l'\<rparr>), l'))
                  | Some l' \<Rightarrow> (h, l'));
               (h2, c) = alloc h1 (ChoiceObj \<lparr>choice_text = txt, next_scene_index = nxt\<rparr>)
           in list_append h2 l c))"

definition add_choice :: "string \<Rightarrow> int \<Rightarrow> heap \<times> builder \<Rightarrow> heap \<times> builder" where
  "add_choice txt nxt hb =
     (let (h, b) = hb; ss = list_items h (states b)
      in if ss = [] then hb else (add_choice_to txt nxt h (last ss), b))"

text \<open>\<open>build\<close> returns \<open>self._states\<close>: the reference, not a copy.\<close>

definition build :: "builder \<Rightarrow> addr" where
  "build b = states b"

text \<open>The calls an author can make on a Builder, and a script of them.\<close>

datatype command =
    SetCharacters "character_definition list"
  | SetBackground string string
  | SetCamera bool
  | SetVoice bool
  | SetMotors bool
  | SetRobot bool
  | SetBackgroundBlur int
  | SetStage string
  | SetStageBlur int
  | SetPath "string option"
  | ShowCharacter string string
  | HideCharacter string
  | MoveCharacter string string
  | ChangeCharacterSprite string string
  | SetCharacterAnimation string string
  | SetCharacterScale string real
  | Dialogue string string
  | Narration string
  | RequestInput string string
  | SendMotorCommand int int
  | SendMotorCommands "(int \<times> int) list"
  | SendRobotPose robot_pose
  | PlaySound string
  | AddChoice string int

fun exec :: "command \<Rightarrow> heap \<times> builder \<Rightarrow> heap \<times> builder" where
  "exec (SetCharacters chars) hb = set_characters chars hb"
| "exec (SetBackground url label) hb = set_background url label hb"
| "exec (SetCamera v) (h, b) = (h, b\<lparr>current_show_camera := v\<rparr>)"
| "exec (SetVoice v) (h, b) = (h, b\<lparr>current_show_voice := v\<rparr>)"
| "exec (SetMotors v) (h, b) = (h, b\<lparr>current_show_motors := v\<rparr>)"
| "exec (SetRobot v) (h, b) = (h, b\<lparr>current_show_robot := v\<rparr>)"
| "exec (SetBackgroundBlur n) (h, b) = (h, b\<lparr>current_background_blur := n\<rparr>)"
| "exec (SetStage url) (h, b) = (h, b\<lparr>current_stage := url\<rparr>)"
| "exec (SetStageBlur n) (h, b) = (h, b\<lparr>current_stage_blur := n\<rparr>)"
| "exec (SetPath p) (h, b) = (h, b\<lparr>current_path := p\<rparr>)"
| "exec (ShowCharacter nm pos) hb = show_character nm pos hb"
| "exec (HideCharacter nm) hb = hide_character nm hb"
| "exec (MoveCharacter nm pos) hb = move_character nm pos hb"
| "exec (ChangeCharacterSprite nm url) hb = change_character_sprite nm url hb"
| "exec (SetCharacterAnimation nm anim) hb = set_character_animation nm anim hb"
| "exec (SetCharacterScale nm sc) hb = set_character_scale nm sc hb"
| "exec (Dialogue spk txt) hb = dialogue spk txt hb"
| "exec (Narration txt) hb = narration txt hb"
| "exec (RequestInput prm var) hb = request_input prm var hb"
| "exec (SendMotorCommand mid pos) hb = send_motor_command mid pos hb"
| "exec (SendMotorCommands cmds) hb = send_motor_commands cmds hb"
| "exec (SendRobotPose pose) hb = send_robot_pose pose hb"
| "exec (PlaySound file) hb = play_sound file hb"
| "exec (AddChoice txt nxt) hb = add_choice txt nxt hb"

definition run :: "command list \<Rightarrow> heap \<times> builder" where
  "run cmds = foldl (\<lambda>hb c. exec c hb) new_builder cmds"

subsection \<open>Well-formed stores\<close>

text \<open>Two stores agree on a set of addresses; a store extends another except at some addresses.\<close>

definition agree :: "heap \<Rightarrow> heap \<Rightarrow> addr set \<Rightarrow> bool" where
  "agree h h' X = (\<forall>x \<in> X. lookup h' x = lookup h x)"

definition ext :: "heap \<Rightarrow> heap \<Rightarrow> addr set \<Rightarrow> bool" where
  "ext h h' X = (length h \<le> length h' \<and> (\<forall>x. x < length h \<and> x \<notin> X \<longrightarrow> h' ! x = h ! x))"

text \<open>A scene, or a sprite dict, that can be read and whose objects are all different.\<close>

definition wf_scene :: "heap \<Rightarrow> addr \<Rightarrow> bool" where
  "wf_scene h a = (read_scene h a \<noteq> None \<and> distinct (scene_fp h a))"

definition wf_dict :: "heap \<Rightarrow> addr \<Rightarrow> bool" where
  "wf_dict h d = (read_dict h d \<noteq> None \<and> distinct (dict_fp h d))"

text \<open>
  A change of the store that is local to the scene at \<open>a\<close>: it writes only to objects
  of that scene or to new ones, and the scene stays well formed, made of objects it
  had before and of new ones.
\<close>

definition local_change :: "heap \<Rightarrow> addr \<Rightarrow> heap \<Rightarrow> bool" where
  "local_change h a h' =
     (ext h h' (set (scene_fp h a)) \<and> wf_scene h' a
      \<and> set (scene_fp h' a) \<subseteq> set (scene_fp h a) \<union> {length h ..< length h'})"

text \<open>
  The invariant of a Builder in its store: the scene list is a list of distinct,
  well-formed scenes, the running sprite dict is well formed, and the scene list, the
  running sprite dict and the scenes have no object in common.
\<close>

definition wf :: "heap \<times> builder \<Rightarrow> bool" where
  "wf hb =
     (let (h, b) = hb in
      case list_at h (states b) of
        None \<Rightarrow> False
      | Some ss \<Rightarrow>
          distinct ss
          \<and> (\<forall>a \<in> set ss. wf_scene h a)
          \<and> wf_dict h (current_sprites b)
          \<and> (\<forall>a \<in> set ss. \<forall>a' \<in> set ss. a \<noteq> a' \<longrightarrow> set (scene_fp h a) \<inter> set (scene_fp h a') = {})
          \<and> (\<forall>a \<in> set ss. set (dict_fp h (current_sprites b)) \<inter> set (scene_fp h a) = {})
          \<and> states b \<notin> set (dict_fp h (current_sprites b))
          \<and> (\<forall>a \<in> set ss. states b \<notin> set (scene_fp h a)))"

text \<open>
  The scene list of \<open>hb\<close> is found unchanged in \<open>hb'\<close>: the same list object, holding
  the same scenes, each with the same value.
\<close>

definition same_graph :: "heap \<times> builder \<Rightarrow> heap \<times> builder \<Rightarrow> bool" where
  "same_graph hb hb' =
     (states (snd hb') = states (snd hb)
      \<and> list_items (fst hb') (states (snd hb)) = list_items (fst hb) (states (snd hb))
      \<and> (\<forall>x \<in> set (list_items (fst hb) (states (snd hb))).
            read_scene (fst hb') x = read_scene (fst hb) x))"

text \<open>
  The three kinds of Builder calls: those that only set a field of the running state,
  those that emit a scene, and \<open>add_choice\<close>.
\<close>

fun sets_template :: "command \<Rightarrow> bool" where
  "sets_template (SetCharacters chars) = True"
| "sets_template (SetCamera v) = True"
| "sets_template (SetVoice v) = True"
| "sets_template (SetMotors v) = True"
| "sets_template (SetRobot v) = True"
| "sets_template (SetBackgroundBlur n) = True"
| "sets_template (SetStage url) = True"
| "sets_template (SetStageBlur n) = True"
| "sets_template (SetPath p) = True"
| "sets_template c = False"

fun emits :: "command \<Rightarrow> bool" where
  "emits (AddChoice txt nxt) = False"
| "emits c = (\<not> sets_template c)"

text \<open>
  The invariant the specification asks of a story graph: every choice of every scene
  has a target that is an index of the graph.
\<close>

definition valid_targets :: "scene_state list \<Rightarrow> bool" where
  "valid_targets g =
     list_all (\<lambda>s. list_all (\<lambda>c. 0 \<le> next_scene_index c \<and> next_scene_index c < int (length g))
                       (case choices s of None \<Rightarrow> [] | Some cs \<Rightarrow> cs)) g"

text \<open>The choice list of a scene value, empty when the scene has none.\<close>

definition choices_of :: "scene_state \<Rightarrow> choice list" where
  "choices_of s = (case choices s of None \<Rightarrow> [] | Some cs \<Rightarrow> cs)"

text \<open>
  One scene was emitted between \<open>hb\<close> and \<open>hb'\<close>: the scene list is the same list
  object, it holds one more scene at its end, and the scenes it held have the values
  they had.
\<close>

definition emitted :: "heap \<times> builder \<Rightarrow> heap \<times> builder \<Rightarrow> bool" where
  "emitted hb hb' =
     (states (snd hb') = states (snd hb)
      \<and> (\<exists>a. list_items (fst hb') (states (snd hb)) = list_items (fst hb) (states (snd hb)) @ [a]
             \<and> read_scene (fst hb') a \<noteq> None)
      \<and> (\<forall>x \<in> set (list_items (fst hb) (states (snd hb))).
            read_scene (fst hb') x = read_scene (fst hb) x))"

section \<open>Example stories\<close>

text \<open>A scene with a text and a path tag and nothing else; the examples below vary it.\<close>

definition plain_scene :: "string \<Rightarrow> string option \<Rightarrow> scene_state" where
  "plain_scene txt p =
     \<lparr> background_url = '''', background_label = '''', characters = [],
       speaker = '''', scene_text = txt, scene_note = [],
       show_camera = False, show_voice = False, show_motors = False, show_robot = False,
       background_blur = 0, stage_url = '''', stage_blur = 0,
       choices = None, input_request = None, path = p,
       motor_commands = [], audio_file = None, robot_pose = None \<rparr>"

definition ask_name :: scene_state where
  "ask_name =
     (plain_scene '''' None)
       \<lparr>input_request := Some \<lparr>prompt = ''Name?'', variable_name = ''n''\<rparr>\<rparr>"

text \<open>An input request followed by a greeting; the variable already has a value.\<close>

definition input_story :: story_state where
  "input_story =
     \<lparr> scenes = [ask_name, plain_scene ''Hi {n}'' None], index = 0,
       variables = [(''n'', ''Old'')], active_paths = {} \<rparr>"

text \<open>Three scenes, the middle one on a branch that has not been entered.\<close>

definition gated_story :: story_state where
  "gated_story =
     \<lparr> scenes = [plain_scene ''a'' None, plain_scene ''b'' (Some ''x''), plain_scene ''c'' None],
       index = 0, variables = [], active_paths = {} \<rparr>"

text \<open>Two scenes on the main path, the player on the last one.\<close>

definition two_scene_story :: story_state where
  "two_scene_story =
     \<lparr> scenes = [plain_scene ''a'' None, plain_scene ''b'' None],
       index = 1, variables = [], active_paths = {} \<rparr>"

text \<open>A choice that leads to a scene tagged \<open>accept\<close>.\<close>

definition choice_story :: story_state where
  "choice_story =
     \<lparr> scenes = [(plain_scene ''q'' None)
                    \<lparr>choices := Some [\<lparr>choice_text = ''yes'', next_scene_index = 1\<rparr>]\<rparr>,
                 plain_scene ''Hi'' (Some ''accept'')],
       index = 0, variables = [], active_paths = {} \<rparr>"

text \<open>The same, the target scene tagged with the empty string (\<open>set_path("")\<close>).\<close>

definition empty_tag_story :: story_state where
  "empty_tag_story =
     \<lparr> scenes = [(plain_scene ''q'' None)
                    \<lparr>choices := Some [\<lparr>choice_text = ''yes'', next_scene_index = 1\<rparr>]\<rparr>,
                 plain_scene ''Hi'' (Some '''')],
       index = 0, variables = [], active_paths = {} \<rparr>"

text \<open>
  Four scenes, the second and the third on two branches, of which only the second
  branch (\<open>y\<close>) has been entered.
\<close>

definition tagged_story :: story_state where
  "tagged_story =
     \<lparr> scenes = [plain_scene ''a'' None, plain_scene ''b'' (Some ''x''),
                 plain_scene ''c'' (Some ''y''), plain_scene ''d'' None],
       index = 0, variables = [], active_paths = {''y''} \<rparr>"

text \<open>
  Three scenes ending on the entered branch, the player on the last one; the scene
  before it is on a branch that has not been entered.
\<close>

definition gated_end_story :: story_state where
  "gated_end_story =
     \<lparr> scenes = [plain_scene ''a'' None, plain_scene ''b'' (Some ''x''),
                 plain_scene ''c'' (Some ''y'')],
       index = 2, variables = [], active_paths = {''y''} \<rparr>"

text \<open>No scenes at all, in the state \<open>load_initial_state\<close> creates.\<close>

definition empty_story :: story_state where
  "empty_story = \<lparr> scenes = [], index = 0, variables = [], active_paths = {} \<rparr>"

section \<open>Example scripts\<close>

text \<open>One narration.\<close>

definition one_scene_script :: "command list" where
  "one_scene_script = [Narration ''a'']"

text \<open>One narration with a choice whose target, 5, is not an index of the story.\<close>

definition bad_choice_script :: "command list" where
  "bad_choice_script = [Narration ''a'', AddChoice ''go'' 5]"

text \<open>A character is declared and shown, then a narration: two scenes, each with its sprite.\<close>

definition sprite_script :: "command list" where
  "sprite_script =
     [SetCharacters [\<lparr>def_name = ''r'', def_image_url = ''r.png'', animated = False\<rparr>],
      ShowCharacter ''r'' ''left'', Narration ''a'']"

section \<open>Properties of the Navigator\<close>

lemma map_of_dict_set: "map_of (dict_set d k v) = (map_of d)(k \<mapsto> v)"
  by (induction d) (auto simp: fun_upd_twist)

lemma py_index_valid: "0 \<le> i \<Longrightarrow> i < int (length xs) \<Longrightarrow> py_index xs i = Some (xs ! nat i)"
  by (simp add: py_index_def)

lemma py_index_Nil: "py_index [] i = None"
  by (auto simp: py_index_def)

subsection \<open>The scan of \<open>change_scene\<close>\<close>

lemma find_scene_up:
  "0 \<le> s \<Longrightarrow>
   \<exists>j. find_scene scs ps 1 cur s = Some j \<and>
     ((j = cur \<and> (\<forall>k. s \<le> k \<and> k < int (length scs) \<longrightarrow> \<not> is_scene_accessible (scs ! nat k) ps))
      \<or> (s \<le> j \<and> j < int (length scs) \<and> is_scene_accessible (scs ! nat j) ps
          \<and> (\<forall>k. s \<le> k \<and> k < j \<longrightarrow> \<not> is_scene_accessible (scs ! nat k) ps)))"
proof (induction "nat (int (length scs) - s)" arbitrary: s)
  case 0
  then have n: "\<not> s < int (length scs)" by simp
  then have "find_scene scs ps 1 cur s = Some cur" by (subst find_scene.simps) simp
  moreover have "\<forall>k. s \<le> k \<and> k < int (length scs) \<longrightarrow> \<not> is_scene_accessible (scs ! nat k) ps"
    using n by auto
  ultimately show ?case by blast
next
  case (Suc m)
  then have lt: "s < int (length scs)" by linarith
  show ?case
  proof (cases "is_scene_accessible (scs ! nat s) ps")
    case True
    have "find_scene scs ps 1 cur s = Some s"
      using True Suc.prems lt by (subst find_scene.simps) simp
    moreover have "\<forall>k. s \<le> k \<and> k < s \<longrightarrow> \<not> is_scene_accessible (scs ! nat k) ps"
      by auto
    moreover have "s \<le> s" by simp
    ultimately show ?thesis using True lt by blast
  next
    case False
    have "m = nat (int (length scs) - (s + 1))" using Suc.hyps(2) by linarith
    moreover have "0 \<le> s + 1" using Suc.prems by simp
    ultimately obtain j where j: "find_scene scs ps 1 cur (s + 1) = Some j"
      and d: "(j = cur \<and> (\<forall>k. s + 1 \<le> k \<and> k < int (length scs)
                              \<longrightarrow> \<not> is_scene_accessible (scs ! nat k) ps))
      \<or> (s + 1 \<le> j \<and> j < int (length scs) \<and> is_scene_accessible (scs ! nat j) ps
          \<and> (\<forall>k. s + 1 \<le> k \<and> k < j \<longrightarrow> \<not> is_scene_accessible (scs ! nat k) ps))"
      using Suc.hyps(1) by blast
    have step: "find_scene scs ps 1 cur s = find_scene scs ps 1 cur (s + 1)"
      using False Suc.prems lt by (subst find_scene.simps) simp
    have ext: "\<And>k. s \<le> k \<Longrightarrow> k = s \<or> s + 1 \<le> k" by linarith
    from d show ?thesis
    proof
      assume a: "j = cur \<and> (\<forall>k. s + 1 \<le> k \<and> k < int (length scs)
                               \<longrightarrow> \<not> is_scene_accessible (scs ! nat k) ps)"
      then have "\<forall>k. s \<le> k \<and> k < int (length scs) \<longrightarrow> \<not> is_scene_accessible (scs ! nat k) ps"
        using False ext by blast
      with a j step show ?thesis by simp
    next
      assume a: "s + 1 \<le> j \<and> j < int (length scs) \<and> is_scene_accessible (scs ! nat j) ps
          \<and> (\<forall>k. s + 1 \<le> k \<and> k < j \<longrightarrow> \<not> is_scene_accessible (scs ! nat k) ps)"
      then have "\<forall>k. s \<le> k \<and> k < j \<longrightarrow> \<not> is_scene_accessible (scs ! nat k) ps"
        using False ext by blast
      moreover have "s \<le> j" using a by linarith
      ultimately show ?thesis using a j step by simp
    qed
  qed
qed

lemma find_scene_down:
  "s < int (length scs) \<Longrightarrow>
   \<exists>j. find_scene scs ps (- 1) cur s = Some j \<and>
     ((j = cur \<and> (\<forall>k. 0 \<le> k \<and> k \<le> s \<longrightarrow> \<not> is_scene_accessible (scs ! nat k) ps))
      \<or> (0 \<le> j \<and> j \<le> s \<and> is_scene_accessible (scs ! nat j) ps
          \<and> (\<forall>k. j < k \<and> k \<le> s \<longrightarrow> \<not> is_scene_accessible (scs ! nat k) ps)))"
proof (induction "nat (s + 1)" arbitrary: s)
  case 0
  then have n: "\<not> 0 \<le> s" by simp
  then have "find_scene scs ps (- 1) cur s = Some cur" by (subst find_scene.simps) simp
  moreover have "\<forall>k. 0 \<le> k \<and> k \<le> s \<longrightarrow> \<not> is_scene_accessible (scs ! nat k) ps"
    using n by auto
  ultimately show ?case by blast
next
  case (Suc m)
  then have ge: "0 \<le> s" by linarith
  show ?case
  proof (cases "is_scene_accessible (scs ! nat s) ps")
    case True
    have "find_scene scs ps (- 1) cur s = Some s"
      using True Suc.prems ge by (subst find_scene.simps) simp
    moreover have "\<forall>k. s < k \<and> k \<le> s \<longrightarrow> \<not> is_scene_accessible (scs ! nat k) ps"
      by auto
    moreover have "s \<le> s" by simp
    ultimately show ?thesis using True ge by blast
  next
    case False
    have "m = nat ((s - 1) + 1)" using Suc.hyps(2) by linarith
    moreover have "s - 1 < int (length scs)" using Suc.prems by simp
    ultimately obtain j where j: "find_scene scs ps (- 1) cur (s - 1) = Some j"
      and d: "(j = cur \<and> (\<forall>k. 0 \<le> k \<and> k \<le> s - 1 \<longrightarrow> \<not> is_scene_accessible (scs ! nat k) ps))
      \<or> (0 \<le> j \<and> j \<le> s - 1 \<and> is_scene_accessible (scs ! nat j) ps
          \<and> (\<forall>k. j < k \<and> k \<le> s - 1 \<longrightarrow> \<not> is_scene_accessible (scs ! nat k) ps))"
      using Suc.hyps(1) by blast
    have step: "find_scene scs ps (- 1) cur s = find_scene scs ps (- 1) cur (s - 1)"
      using False Suc.prems ge by (subst find_scene.simps) simp
    have ext: "\<And>k. k \<le> s \<Longrightarrow> k = s \<or> k \<le> s - 1" by linarith
    from d show ?thesis
    proof
      assume a: "j = cur \<and> (\<forall>k. 0 \<le> k \<and> k \<le> s - 1 \<longrightarrow> \<not> is_scene_accessible (scs ! nat k) ps)"
      then have "\<forall>k. 0 \<le> k \<and> k \<le> s \<longrightarrow> \<not> is_scene_accessible (scs ! nat k) ps"
        using False ext by blast
      with a j step show ?thesis by simp
    next
      assume a: "0 \<le> j \<and> j \<le> s - 1 \<and> is_scene_accessible (scs ! nat j) ps
          \<and> (\<forall>k. j < k \<and> k \<le> s - 1 \<longrightarrow> \<not> is_scene_accessible (scs ! nat k) ps)"
      then have "\<forall>k. j < k \<and> k \<le> s \<longrightarrow> \<not> is_scene_accessible (scs ! nat k) ps"
        using False ext by blast
      moreover have "j \<le> s" using a by linarith
      ultimately show ?thesis using a j step by simp
    qed
  qed
qed

lemma change_scene_scan:
  assumes ne: "scenes st \<noteq> []" and lo: "0 \<le> index st"
    and hi: "index st < int (length (scenes st))"
    and d: "direction = 1 \<or> direction = - 1"
  shows "\<exists>j. change_scene st direction
               = Returns (st\<lparr>index := j\<rparr>,
                   render_scene (scenes st ! nat j) j (int (length (scenes st))) (variables st))
           \<and> 0 \<le> j \<and> j < int (length (scenes st))
           \<and> (if direction = 1 then
                 (j = index st
                    \<and> (\<forall>k. index st < k \<and> k < int (length (scenes st))
                          \<longrightarrow> \<not> is_scene_accessible (scenes st ! nat k) (active_paths st)))
                 \<or> (index st < j \<and> is_scene_accessible (scenes st ! nat j) (active_paths st)
                    \<and> (\<forall>k. index st < k \<and> k < j
                          \<longrightarrow> \<not> is_scene_accessible (scenes st ! nat k) (active_paths st)))
               else
                 (j = index st
                    \<and> (\<forall>k. 0 \<le> k \<and> k < index st
                          \<longrightarrow> \<not> is_scene_accessible (scenes st ! nat k) (active_paths st)))
                 \<or> (j < index st \<and> is_scene_accessible (scenes st ! nat j) (active_paths st)
                    \<and> (\<forall>k. j < k \<and> k < index st
                          \<longrightarrow> \<not> is_scene_accessible (scenes st ! nat k) (active_paths st))))"
proof -
  let ?n = "int (length (scenes st))"
  let ?acc = "\<lambda>k. is_scene_accessible (scenes st ! nat k) (active_paths st)"
  have ret: "change_scene st direction
               = Returns (st\<lparr>index := j\<rparr>, render_scene (scenes st ! nat j) j ?n (variables st))"
    if "find_scene (scenes st) (active_paths st) direction (index st) (index st + direction) = Some j"
      and "0 \<le> j" and "j < ?n" for j
    using that ne by (simp add: change_scene_def py_index_valid)
  from d show ?thesis
  proof
    assume up: "direction = 1"
    have "0 \<le> index st + 1" using lo by simp
    from find_scene_up [OF this, of "scenes st" "active_paths st" "index st"]
    obtain j where f: "find_scene (scenes st) (active_paths st) 1 (index st) (index st + 1) = Some j"
      and c: "(j = index st \<and> (\<forall>k. index st + 1 \<le> k \<and> k < ?n \<longrightarrow> \<not> ?acc k))
              \<or> (index st + 1 \<le> j \<and> j < ?n \<and> ?acc j
                  \<and> (\<forall>k. index st + 1 \<le> k \<and> k < j \<longrightarrow> \<not> ?acc k))"
      by blast
    from c have c': "(j = index st \<and> (\<forall>k. index st < k \<and> k < ?n \<longrightarrow> \<not> ?acc k))
              \<or> (index st < j \<and> j < ?n \<and> ?acc j \<and> (\<forall>k. index st < k \<and> k < j \<longrightarrow> \<not> ?acc k))"
      by (metis zless_imp_add1_zle add1_zle_eq)
    then have r: "0 \<le> j \<and> j < ?n" using lo hi by auto
    with f up ret [of j] have "change_scene st direction
               = Returns (st\<lparr>index := j\<rparr>, render_scene (scenes st ! nat j) j ?n (variables st))"
      by simp
    with r c' up show ?thesis by auto
  next
    assume down: "direction = - 1"
    have "index st - 1 < ?n" using hi by simp
    from find_scene_down [OF this, of "active_paths st" "index st"]
    obtain j where f: "find_scene (scenes st) (active_paths st) (- 1) (index st) (index st - 1) = Some j"
      and c: "(j = index st \<and> (\<forall>k. 0 \<le> k \<and> k \<le> index st - 1 \<longrightarrow> \<not> ?acc k))
              \<or> (0 \<le> j \<and> j \<le> index st - 1 \<and> ?acc j
                  \<and> (\<forall>k. j < k \<and> k \<le> index st - 1 \<longrightarrow> \<not> ?acc k))"
      by blast
    from c have c': "(j = index st \<and> (\<forall>k. 0 \<le> k \<and> k < index st \<longrightarrow> \<not> ?acc k))
              \<or> (0 \<le> j \<and> j < index st \<and> ?acc j \<and> (\<forall>k. j < k \<and> k < index st \<longrightarrow> \<not> ?acc k))"
      by (metis zle_diff1_eq)
    then have r: "0 \<le> j \<and> j < ?n" using lo hi by auto
    with f down ret [of j] have "change_scene st direction
               = Returns (st\<lparr>index := j\<rparr>, render_scene (scenes st ! nat j) j ?n (variables st))"
      by simp
    with r c' down show ?thesis by auto
  qed
qed

lemma change_scene_stay:
  assumes ne: "scenes st \<noteq> []" and lo: "0 \<le> index st"
    and hi: "index st < int (length (scenes st))"
    and acc: "is_scene_accessible (scenes st ! nat (index st)) (active_paths st)"
  shows "change_scene st 0
           = Returns (st, render_scene (scenes st ! nat (index st)) (index st)
                            (int (length (scenes st))) (variables st))"
proof -
  have "find_scene (scenes st) (active_paths st) 0 (index st) (index st) = Some (index st)"
    using lo hi acc by (subst find_scene.simps) simp
  then show ?thesis using ne lo hi by (simp add: change_scene_def py_index_valid)
qed

text \<open>The function of the source computes the accessibility of the specification.\<close>

lemma is_scene_accessible_iff: "is_scene_accessible scene paths = spec_accessible scene paths"
  by (auto simp: is_scene_accessible_def spec_accessible_def split: option.splits)

text \<open>
  With direction 0 the loop never leaves a scene that is not accessible: it returns
  no index.
\<close>

lemma find_scene_stuck_aux:
  assumes "find_scene scs ps d cur s = Some y"
  shows "\<not> (d = 0 \<and> 0 \<le> s \<and> s < int (length scs) \<and> \<not> is_scene_accessible (scs ! nat s) ps)"
  by (rule find_scene.raw_induct
        [where P = "\<lambda>scs ps d cur s y.
            \<not> (d = 0 \<and> 0 \<le> s \<and> s < int (length scs) \<and> \<not> is_scene_accessible (scs ! nat s) ps)",
         OF _ assms])
     (auto split: if_splits)

lemma find_scene_stuck:
  assumes "0 \<le> s" and "s < int (length scs)" and "\<not> is_scene_accessible (scs ! nat s) ps"
  shows "find_scene scs ps 0 cur s = None"
proof (cases "find_scene scs ps 0 cur s")
  case None
  then show ?thesis .
next
  case (Some y)
  from find_scene_stuck_aux [OF Some] assms show ?thesis by simp
qed

lemma change_scene_stuck:
  assumes "scenes st \<noteq> []" and "0 \<le> index st" and "index st < int (length (scenes st))"
    and "\<not> is_scene_accessible (scenes st ! nat (index st)) (active_paths st)"
  shows "change_scene st 0 = Diverges"
  using assms find_scene_stuck [OF assms(2,3,4), of "index st"]
  by (simp add: change_scene_def)

text \<open>The scan, in the specification's words for accessibility.\<close>

lemma change_scene_scan_acc:
  assumes "scenes st \<noteq> []" and "0 \<le> index st"
    and "index st < int (length (scenes st))"
    and "direction = 1 \<or> direction = - 1"
  shows "\<exists>j. change_scene st direction
               = Returns (st\<lparr>index := j\<rparr>,
                   render_scene (scenes st ! nat j) j (int (length (scenes st))) (variables st))
           \<and> 0 \<le> j \<and> j < int (length (scenes st))
           \<and> (if direction = 1 then
                 (j = index st
                    \<and> (\<forall>k. index st < k \<and> k < int (length (scenes st))
                          \<longrightarrow> \<not> spec_accessible (scenes st ! nat k) (active_paths st)))
                 \<or> (index st < j \<and> spec_accessible (scenes st ! nat j) (active_paths st)
                    \<and> (\<forall>k. index st < k \<and> k < j
                          \<longrightarrow> \<not> spec_accessible (scenes st ! nat k) (active_paths st)))
               else
                 (j = index st
                    \<and> (\<forall>k. 0 \<le> k \<and> k < index st
                          \<longrightarrow> \<not> spec_accessible (scenes st ! nat k) (active_paths st)))
                 \<or> (j < index st \<and> spec_accessible (scenes st ! nat j) (active_paths st)
                    \<and> (\<forall>k. j < k \<and> k < index st
                          \<longrightarrow> \<not> spec_accessible (scenes st ! nat k) (active_paths st))))"
  unfolding is_scene_accessible_iff [symmetric]
  using assms by (rule change_scene_scan)

lemma scan_up:
  assumes "scenes st \<noteq> []" and "0 \<le> index st" and "index st < int (length (scenes st))"
  shows "\<exists>j. change_scene st 1
               = Returns (st\<lparr>index := j\<rparr>,
                   render_scene (scenes st ! nat j) j (int (length (scenes st))) (variables st))
           \<and> 0 \<le> j \<and> j < int (length (scenes st))
           \<and> ((j = index st
                    \<and> (\<forall>k. index st < k \<and> k < int (length (scenes st))
                          \<longrightarrow> \<not> spec_accessible (scenes st ! nat k) (active_paths st)))
                 \<or> (index st < j \<and> spec_accessible (scenes st ! nat j) (active_paths st)
                    \<and> (\<forall>k. index st < k \<and> k < j
                          \<longrightarrow> \<not> spec_accessible (scenes st ! nat k) (active_paths st))))"
  using change_scene_scan_acc [OF assms, of 1] by simp

lemma scan_down:
  assumes "scenes st \<noteq> []" and "0 \<le> index st" and "index st < int (length (scenes st))"
  shows "\<exists>j. change_scene st (- 1)
               = Returns (st\<lparr>index := j\<rparr>,
                   render_scene (scenes st ! nat j) j (int (length (scenes st))) (variables st))
           \<and> 0 \<le> j \<and> j < int (length (scenes st))
           \<and> ((j = index st
                    \<and> (\<forall>k. 0 \<le> k \<and> k < index st
                          \<longrightarrow> \<not> spec_accessible (scenes st ! nat k) (active_paths st)))
                 \<or> (j < index st \<and> spec_accessible (scenes st ! nat j) (active_paths st)
                    \<and> (\<forall>k. j < k \<and> k < index st
                          \<longrightarrow> \<not> spec_accessible (scenes st ! nat k) (active_paths st))))"
  using change_scene_scan_acc [OF assms, of "- 1"] by simp

lemma change_scene_paths:
  "change_scene st d = Returns (st', v) \<Longrightarrow> active_paths st' = active_paths st"
  by (auto simp: change_scene_def split: if_splits option.splits)

lemma handle_input_paths:
  "handle_input st u = Returns (st', v) \<Longrightarrow> active_paths st' = active_paths st"
  by (auto simp: handle_input_def Let_def split: if_splits option.splits)

lemma handle_choice_paths:
  "handle_choice st ci = Returns (st', v) \<Longrightarrow> active_paths st \<subseteq> active_paths st'"
  by (auto simp: handle_choice_def Let_def dest: change_scene_paths split: if_splits option.splits)

subsection \<open>Replacing placeholders\<close>

lemma py_replace_Nil: "py_replace (placeholder n) v [] = []"
  by (subst py_replace.simps) (simp add: placeholder_def)

lemma py_replace_hit:
  "py_replace (placeholder n) v (placeholder n @ r) = v @ py_replace (placeholder n) v r"
  by (subst py_replace.simps) (simp add: placeholder_def)

lemma py_replace_miss:
  "\<not> prefix (placeholder n) (c # cs) \<Longrightarrow>
   py_replace (placeholder n) v (c # cs) = c # py_replace (placeholder n) v cs"
  by (subst py_replace.simps) (auto simp: placeholder_def)

lemma py_replace_skip:
  "CHR ''{'' \<notin> set s \<Longrightarrow>
   py_replace (placeholder n) v (s @ r) = s @ py_replace (placeholder n) v r"
proof (induction s)
  case Nil
  show ?case by simp
next
  case (Cons c s)
  then have "\<not> prefix (placeholder n) (c # (s @ r))"
    by (auto simp: placeholder_def)
  with Cons show ?case by (simp add: py_replace_miss)
qed

lemma placeholder_prefix:
  assumes "brace_free n" and "brace_free m"
  shows "prefix (placeholder n) (placeholder m @ r) \<longleftrightarrow> n = m"
proof
  assume "prefix (placeholder n) (placeholder m @ r)"
  then have p: "prefix (n @ [CHR ''}'']) (m @ CHR ''}'' # r)"
    by (simp add: placeholder_def)
  from assms have nn: "CHR ''}'' \<notin> set n" and mm: "CHR ''}'' \<notin> set m"
    by (simp_all add: brace_free_def)
  from p nn mm show "n = m"
  proof (induction n arbitrary: m)
    case Nil
    then show ?case by (cases m) auto
  next
    case (Cons a n)
    then show ?case by (cases m) auto
  qed
next
  assume "n = m"
  then show "prefix (placeholder n) (placeholder m @ r)" by simp
qed

lemma py_replace_pieces:
  assumes "brace_free n" and "\<forall>p \<in> set ps. well_formed_piece p"
  shows "py_replace (placeholder n) v (pieces_text ps) = pieces_text (map (fill n v) ps)"
  using assms(2)
proof (induction ps)
  case Nil
  show ?case by (simp add: pieces_text_def py_replace_Nil)
next
  case (Cons p ps)
  then have ih: "py_replace (placeholder n) v (pieces_text ps) = pieces_text (map (fill n v) ps)"
    by simp
  show ?case
  proof (cases p)
    case (Lit s)
    with Cons.prems have "CHR ''{'' \<notin> set s" by simp
    from py_replace_skip [OF this] ih Lit show ?thesis
      by (simp add: pieces_text_def)
  next
    case (Hole m)
    with Cons.prems have bm: "brace_free m" by simp
    show ?thesis
    proof (cases "m = n")
      case True
      with Hole ih py_replace_hit [of n v "pieces_text ps"] show ?thesis
        by (simp add: pieces_text_def)
    next
      case False
      let ?rest = "pieces_text ps"
      have np: "\<not> prefix (placeholder n) (CHR ''{'' # m @ CHR ''}'' # ?rest)"
        using placeholder_prefix [OF assms(1) bm, of ?rest] False
        by (simp add: placeholder_def)
      have m1: "CHR ''{'' \<notin> set m" using bm by (simp add: brace_free_def)
      have "py_replace (placeholder n) v (CHR ''{'' # m @ CHR ''}'' # ?rest)
              = CHR ''{'' # py_replace (placeholder n) v (m @ CHR ''}'' # ?rest)"
        using np by (rule py_replace_miss)
      also have "py_replace (placeholder n) v (m @ CHR ''}'' # ?rest)
              = m @ py_replace (placeholder n) v ([CHR ''}''] @ ?rest)"
        using py_replace_skip [OF m1, of n v "CHR ''}'' # ?rest"] by simp
      also have "py_replace (placeholder n) v ([CHR ''}''] @ ?rest)
              = [CHR ''}''] @ py_replace (placeholder n) v ?rest"
        by (rule py_replace_skip) simp
      finally show ?thesis using Hole False ih
        by (simp add: pieces_text_def placeholder_def)
    qed
  qed
qed

lemma fill_well_formed:
  "CHR ''{'' \<notin> set v \<Longrightarrow> well_formed_piece p \<Longrightarrow> well_formed_piece (fill n v p)"
  by (cases p) auto

lemma substituted_piece_fill:
  "substituted_piece vars (fill n v p) = substituted_piece ((n, v) # vars) p"
  by (cases p) auto

lemma substituted_Nil: "substituted [] ps = pieces_text ps"
proof -
  have "substituted_piece [] p = piece_text p" for p by (cases p) auto
  then have "substituted_piece [] = piece_text" by (rule ext)
  then show ?thesis by (simp add: substituted_def pieces_text_def)
qed

lemma replace_all_pieces:
  assumes "\<forall>(n, v) \<in> set vars. brace_free n \<and> CHR ''{'' \<notin> set v"
    and "\<forall>p \<in> set ps. well_formed_piece p"
  shows "foldl (\<lambda>text_content (var_name, var_value).
                  py_replace (placeholder var_name) var_value text_content)
               (pieces_text ps) vars
           = substituted vars ps"
  using assms
proof (induction vars arbitrary: ps)
  case Nil
  show ?case by (simp add: substituted_Nil)
next
  case (Cons nv vars)
  obtain n v where nv: "nv = (n, v)" by (cases nv)
  with Cons.prems have bn: "brace_free n" and bv: "CHR ''{'' \<notin> set v"
    and rest: "\<forall>(n, v) \<in> set vars. brace_free n \<and> CHR ''{'' \<notin> set v"
    by auto
  have wf: "\<forall>p \<in> set (map (fill n v) ps). well_formed_piece p"
    using Cons.prems(2) bv by (auto intro: fill_well_formed)
  have "substituted vars (map (fill n v) ps) = substituted ((n, v) # vars) ps"
    by (simp add: substituted_def substituted_piece_fill comp_def)
  with Cons.IH [OF rest wf] py_replace_pieces [OF bn Cons.prems(2), of v] nv
  show ?case by simp
qed

subsection \<open>Storing an input\<close>

text \<open>
  C7. On a non-empty story whose current index is a valid index, \<open>handle_input\<close>
  returns (no error), the new index is \<open>min (index + 1) (last index)\<close>, and the
  variables are those of before with \<open>variable_name := value\<close> stored (overwriting
  an older value) exactly when the current scene has an input request and the value
  is not empty; otherwise the variables are the same as before.
\<close>

theorem handle_input_stores_and_advances:
  assumes "scenes st \<noteq> []" and "0 \<le> index st" and "index st < int (length (scenes st))"
  shows "\<exists>st' v. handle_input st user_input = Returns (st', v)
           \<and> index st' = min (index st + 1) (int (length (scenes st)) - 1)
           \<and> scenes st' = scenes st \<and> active_paths st' = active_paths st
           \<and> (case input_request (scenes st ! nat (index st)) of
                 Some r \<Rightarrow>
                   if user_input \<noteq> [] then
                     map_of (variables st') = (map_of (variables st))(variable_name r \<mapsto> user_input)
                   else variables st' = variables st
               | None \<Rightarrow> variables st' = variables st)"
proof -
  let ?n = "int (length (scenes st))"
  let ?j = "min (index st + 1) (?n - 1)"
  have cur: "py_index (scenes st) (index st) = Some (scenes st ! nat (index st))"
    using assms by (simp add: py_index_valid)
  have "0 \<le> ?j" and "?j < ?n" using assms by auto
  then have nxt: "py_index (scenes st) ?j = Some (scenes st ! nat ?j)"
    by (rule py_index_valid)
  show ?thesis
    unfolding handle_input_def
    by (simp add: cur nxt Let_def map_of_dict_set split: option.split)
qed

theorem handle_input_stores_and_advances_witness:
  "scenes input_story \<noteq> [] \<and> 0 \<le> index input_story
   \<and> index input_story < int (length (scenes input_story))
   \<and> (\<exists>st' v. handle_input input_story ''Sam'' = Returns (st', v) \<and> index st' = 1
         \<and> map_of (variables st') ''n'' = Some ''Sam'')"
proof -
  have h1: "scenes input_story \<noteq> []" and h2: "0 \<le> index input_story"
    and h3: "index input_story < int (length (scenes input_story))"
    by (simp_all add: input_story_def)
  have i: "input_request (scenes input_story ! nat (index input_story))
             = Some \<lparr>prompt = ''Name?'', variable_name = ''n''\<rparr>"
    by (simp add: input_story_def ask_name_def plain_scene_def)
  from handle_input_stores_and_advances [OF h1 h2 h3, of "''Sam''"]
  obtain st' v where r: "handle_input input_story ''Sam'' = Returns (st', v)"
    and j: "index st' = min (index input_story + 1) (int (length (scenes input_story)) - 1)"
    and m: "(case input_request (scenes input_story ! nat (index input_story)) of
               Some r \<Rightarrow>
                 if ''Sam'' \<noteq> [] then
                   map_of (variables st')
                     = (map_of (variables input_story))(variable_name r \<mapsto> ''Sam'')
                 else variables st' = variables input_story
             | None \<Rightarrow> variables st' = variables input_story)"
    by blast
  from j have "index st' = 1" by (simp add: input_story_def)
  moreover from m i have "map_of (variables st') ''n'' = Some ''Sam''" by simp
  ultimately show ?thesis using h1 h2 h3 r by blast
qed

subsection \<open>Advancing\<close>

text \<open>
  C5. On a non-empty story with a valid current index, \<open>change_scene\<close> with direction
  \<open>+1\<close> or \<open>-1\<close> returns, and the new index \<open>j\<close> is the first index met from
  \<open>index + direction\<close> on, in that direction, whose scene is accessible (every index
  strictly between the old index and \<open>j\<close> is not accessible); when no index in that
  direction is accessible the index stays.  Accessible is meant as the specification
  defines it (\<open>spec_accessible\<close>): the path of the scene is absent or a member of the
  active paths.
\<close>

theorem change_scene_advance:
  assumes "scenes st \<noteq> []" and "0 \<le> index st"
    and "index st < int (length (scenes st))"
    and "direction = 1 \<or> direction = - 1"
  shows "\<exists>j. change_scene st direction
               = Returns (st\<lparr>index := j\<rparr>,
                   render_scene (scenes st ! nat j) j (int (length (scenes st))) (variables st))
           \<and> 0 \<le> j \<and> j < int (length (scenes st))
           \<and> (if direction = 1 then
                 (j = index st
                    \<and> (\<forall>k. index st < k \<and> k < int (length (scenes st))
                          \<longrightarrow> \<not> spec_accessible (scenes st ! nat k) (active_paths st)))
                 \<or> (index st < j \<and> spec_accessible (scenes st ! nat j) (active_paths st)
                    \<and> (\<forall>k. index st < k \<and> k < j
                          \<longrightarrow> \<not> spec_accessible (scenes st ! nat k) (active_paths st)))
               else
                 (j = index st
                    \<and> (\<forall>k. 0 \<le> k \<and> k < index st
                          \<longrightarrow> \<not> spec_accessible (scenes st ! nat k) (active_paths st)))
                 \<or> (j < index st \<and> spec_accessible (scenes st ! nat j) (active_paths st)
                    \<and> (\<forall>k. j < k \<and> k < index st
                          \<longrightarrow> \<not> spec_accessible (scenes st ! nat k) (active_paths st))))"
  using assms by (rule change_scene_scan_acc)

text \<open>
  On the story with two branches, of which \<open>y\<close> is active: advancing from scene 0
  skips scene 1 (branch \<open>x\<close>, not active) and stops at scene 2 (branch \<open>y\<close>).
\<close>

theorem change_scene_advance_witness:
  "scenes tagged_story \<noteq> [] \<and> 0 \<le> index tagged_story
   \<and> index tagged_story < int (length (scenes tagged_story))
   \<and> ((1::int) = 1 \<or> (1::int) = - 1)
   \<and> \<not> spec_accessible (scenes tagged_story ! 1) (active_paths tagged_story)
   \<and> spec_accessible (scenes tagged_story ! 2) (active_paths tagged_story)
   \<and> (\<exists>j. change_scene tagged_story 1
               = Returns (tagged_story\<lparr>index := j\<rparr>,
                   render_scene (scenes tagged_story ! nat j) j 4 (variables tagged_story))
           \<and> j = 2)"
proof -
  have h1: "scenes tagged_story \<noteq> []" and h2: "0 \<le> index tagged_story"
    and h3: "index tagged_story < int (length (scenes tagged_story))"
    and h4: "(1::int) = 1 \<or> (1::int) = - 1"
    by (simp_all add: tagged_story_def)
  have a1: "\<not> spec_accessible (scenes tagged_story ! 1) (active_paths tagged_story)"
    and a2: "spec_accessible (scenes tagged_story ! 2) (active_paths tagged_story)"
    by (simp_all add: tagged_story_def spec_accessible_def plain_scene_def)
  from change_scene_advance [OF h1 h2 h3 h4]
  obtain j where r: "change_scene tagged_story 1
               = Returns (tagged_story\<lparr>index := j\<rparr>,
                   render_scene (scenes tagged_story ! nat j) j
                     (int (length (scenes tagged_story))) (variables tagged_story))"
    and b: "0 \<le> j" "j < int (length (scenes tagged_story))"
    and c: "(j = index tagged_story
              \<and> (\<forall>k. index tagged_story < k \<and> k < int (length (scenes tagged_story))
                    \<longrightarrow> \<not> spec_accessible (scenes tagged_story ! nat k) (active_paths tagged_story)))
            \<or> (index tagged_story < j
              \<and> spec_accessible (scenes tagged_story ! nat j) (active_paths tagged_story)
              \<and> (\<forall>k. index tagged_story < k \<and> k < j
                    \<longrightarrow> \<not> spec_accessible (scenes tagged_story ! nat k) (active_paths tagged_story)))"
    by auto
  have i0: "index tagged_story = 0" and n4: "int (length (scenes tagged_story)) = 4"
    by (simp_all add: tagged_story_def)
  have a2': "spec_accessible (scenes tagged_story ! nat 2) (active_paths tagged_story)"
    using a2 by simp
  have a1': "\<not> spec_accessible (scenes tagged_story ! nat 1) (active_paths tagged_story)"
    using a1 by simp
  from c have "j = 2"
  proof
    assume "j = index tagged_story
              \<and> (\<forall>k. index tagged_story < k \<and> k < int (length (scenes tagged_story))
                    \<longrightarrow> \<not> spec_accessible (scenes tagged_story ! nat k) (active_paths tagged_story))"
    then have "\<forall>k. index tagged_story < k \<and> k < int (length (scenes tagged_story))
                    \<longrightarrow> \<not> spec_accessible (scenes tagged_story ! nat k) (active_paths tagged_story)"
      by (rule conjunct2)
    from this [rule_format, of 2] i0 n4 a2' show ?thesis by simp
  next
    assume s: "index tagged_story < j
              \<and> spec_accessible (scenes tagged_story ! nat j) (active_paths tagged_story)
              \<and> (\<forall>k. index tagged_story < k \<and> k < j
                    \<longrightarrow> \<not> spec_accessible (scenes tagged_story ! nat k) (active_paths tagged_story))"
    show ?thesis
    proof (rule ccontr)
      assume n: "j \<noteq> 2"
      from s i0 b n4 n consider "j = 1" | "j = 3" by linarith
      then show False
      proof cases
        case 1
        with s a1' show False by simp
      next
        case 2
        from s have "\<forall>k. index tagged_story < k \<and> k < j
                    \<longrightarrow> \<not> spec_accessible (scenes tagged_story ! nat k) (active_paths tagged_story)"
          by simp
        from this [rule_format, of 2] 2 i0 a2' show False by simp
      qed
    qed
  qed
  with r n4 h1 h2 h3 a1 a2 show ?thesis by auto
qed

subsection \<open>Forward, then back\<close>

text \<open>
  C9 as stated fails at the last scene: on two scenes of the main path with the player
  on the second, \<open>advance(+1)\<close> leaves the index at 1 and \<open>advance(-1)\<close> then moves
  it to 0, so the index is not left unchanged.
\<close>

theorem advance_then_retreat_counterexample:
  "spec_accessible (scenes two_scene_story ! nat (index two_scene_story))
     (active_paths two_scene_story)
   \<and> change_scene two_scene_story 1
       = Returns (two_scene_story, render_scene (plain_scene ''b'' None) 1 2 [])
   \<and> change_scene two_scene_story (- 1)
       = Returns (two_scene_story\<lparr>index := 0\<rparr>, render_scene (plain_scene ''a'' None) 0 2 [])
   \<and> index (two_scene_story\<lparr>index := 0\<rparr>) \<noteq> index two_scene_story"
  by (simp add: change_scene_def two_scene_story_def find_scene.simps is_scene_accessible_def
      spec_accessible_def
      plain_scene_def py_index_def)

text \<open>
  C9, amended. From a valid, accessible current index, with no path activated in
  between: \<open>advance(+1)\<close> followed by \<open>advance(-1)\<close> gives back the state it
  started from whenever some accessible scene lies after the current index.  When none
  does, \<open>advance(+1)\<close> changes nothing and the pair moves the index to the nearest
  accessible scene before the current index (every scene between the two is not
  accessible), or leaves it where it is when no scene before it is accessible.  In
  every case the pair is idempotent: applied to the state \<open>st2\<close> it has produced, it
  produces \<open>st2\<close> again.
\<close>

theorem advance_then_retreat:
  assumes ne: "scenes st \<noteq> []" and lo: "0 \<le> index st"
    and hi: "index st < int (length (scenes st))"
    and acc: "spec_accessible (scenes st ! nat (index st)) (active_paths st)"
  shows "\<exists>st1 v1 st2 v2 st3 v3 v4.
           change_scene st 1 = Returns (st1, v1) \<and> change_scene st1 (- 1) = Returns (st2, v2)
           \<and> change_scene st2 1 = Returns (st3, v3) \<and> change_scene st3 (- 1) = Returns (st2, v4)
           \<and> (if \<exists>k. index st < k \<and> k < int (length (scenes st))
                     \<and> spec_accessible (scenes st ! nat k) (active_paths st)
               then st2 = st
               else st1 = st \<and> st2 = st\<lparr>index := index st2\<rparr>
                 \<and> ((index st2 = index st
                       \<and> (\<forall>k. 0 \<le> k \<and> k < index st
                             \<longrightarrow> \<not> spec_accessible (scenes st ! nat k) (active_paths st)))
                    \<or> (0 \<le> index st2 \<and> index st2 < index st
                       \<and> spec_accessible (scenes st ! nat (index st2)) (active_paths st)
                       \<and> (\<forall>k. index st2 < k \<and> k < index st
                             \<longrightarrow> \<not> spec_accessible (scenes st ! nat k) (active_paths st)))))"
proof -
  let ?n = "int (length (scenes st))"
  let ?acc = "\<lambda>k. spec_accessible (scenes st ! nat k) (active_paths st)"
  let ?v = "\<lambda>k. render_scene (scenes st ! nat k) k ?n (variables st)"
  let ?after = "\<exists>k. index st < k \<and> k < ?n \<and> ?acc k"
  from scan_up [OF ne lo hi]
  obtain j where r1: "change_scene st 1 = Returns (st\<lparr>index := j\<rparr>, ?v j)"
    and b1: "0 \<le> j" "j < ?n"
    and c1: "(j = index st \<and> (\<forall>k. index st < k \<and> k < ?n \<longrightarrow> \<not> ?acc k))
             \<or> (index st < j \<and> ?acc j \<and> (\<forall>k. index st < k \<and> k < j \<longrightarrow> \<not> ?acc k))"
    by auto
  let ?st1 = "st\<lparr>index := j\<rparr>"
  have ne1: "scenes ?st1 \<noteq> []" and lo1: "0 \<le> index ?st1"
    and hi1: "index ?st1 < int (length (scenes ?st1))"
    using ne b1 by simp_all
  from scan_down [OF ne1 lo1 hi1]
  obtain j2 where r2: "change_scene ?st1 (- 1) = Returns (st\<lparr>index := j2\<rparr>, ?v j2)"
    and b2: "0 \<le> j2" "j2 < ?n"
    and c2: "(j2 = j \<and> (\<forall>k. 0 \<le> k \<and> k < j \<longrightarrow> \<not> ?acc k))
             \<or> (j2 < j \<and> ?acc j2 \<and> (\<forall>k. j2 < k \<and> k < j \<longrightarrow> \<not> ?acc k))"
    by auto
  let ?st2 = "st\<lparr>index := j2\<rparr>"
  have ret: "j2 = index st" if "index st < j" "\<forall>k. index st < k \<and> k < j \<longrightarrow> \<not> ?acc k"
  proof -
    from c2 that(1) lo acc have b: "j2 < j" and a2: "?acc j2"
      and n2: "\<forall>k. j2 < k \<and> k < j \<longrightarrow> \<not> ?acc k"
      by auto
    show ?thesis
    proof (rule ccontr)
      assume "j2 \<noteq> index st"
      then consider "j2 < index st" | "index st < j2" by linarith
      then show False
      proof cases
        case 1 with n2 that(1) acc show False by blast
      next
        case 2 with that(2) b a2 show False by blast
      qed
    qed
  qed
  text \<open>When the pair ends where it began, a second round repeats the first.\<close>
  have round: "change_scene st 1 = Returns (?st1, ?v j)
      \<and> change_scene ?st1 (- 1) = Returns (st, ?v j2)
      \<and> change_scene st 1 = Returns (?st1, ?v j)
      \<and> change_scene ?st1 (- 1) = Returns (st, ?v j2)" if "j2 = index st"
  proof -
    from that have "?st2 = st" by simp
    with r1 r2 show ?thesis by simp
  qed
  show ?thesis
  proof (cases ?after)
    case True
    with c1 have a: "index st < j" and n1: "\<forall>k. index st < k \<and> k < j \<longrightarrow> \<not> ?acc k"
      by auto
    from round [OF ret [OF a n1]] True show ?thesis by (intro exI [of _ st] exI) auto
  next
    case False
    with c1 b1 have ji: "j = index st" by blast
    then have e: "?st1 = st" by simp
    show ?thesis
    proof (cases "j2 = index st")
      case True
      from c2 ji True have "\<forall>k. 0 \<le> k \<and> k < index st \<longrightarrow> \<not> ?acc k" by auto
      with round [OF True] e False True show ?thesis
        by (intro exI [of _ st] exI) auto
    next
      case ne2: False
      with c2 ji have lt: "j2 < index st" and a2: "?acc j2"
        and n2: "\<forall>k. j2 < k \<and> k < index st \<longrightarrow> \<not> ?acc k"
        by auto
      have ne3: "scenes ?st2 \<noteq> []" and lo3: "0 \<le> index ?st2"
        and hi3: "index ?st2 < int (length (scenes ?st2))"
        using ne b2 by simp_all
      from scan_up [OF ne3 lo3 hi3]
      obtain j3 where r3: "change_scene ?st2 1 = Returns (?st2\<lparr>index := j3\<rparr>, ?v j3)"
        and c3: "(j3 = j2 \<and> (\<forall>k. j2 < k \<and> k < ?n \<longrightarrow> \<not> ?acc k))
             \<or> (j2 < j3 \<and> ?acc j3 \<and> (\<forall>k. j2 < k \<and> k < j3 \<longrightarrow> \<not> ?acc k))"
        by auto
      from c3 lt hi acc have up: "j2 < j3" and a3: "?acc j3"
        and n3: "\<forall>k. j2 < k \<and> k < j3 \<longrightarrow> \<not> ?acc k"
        by auto
      have "j3 = index st"
      proof (rule ccontr)
        assume "j3 \<noteq> index st"
        then consider "j3 < index st" | "index st < j3" by linarith
        then show False
        proof cases
          case 1 with n2 up a3 show False by blast
        next
          case 2 with n3 lt acc show False by blast
        qed
      qed
      then have "?st2\<lparr>index := j3\<rparr> = st" by simp
      with r3 have r3': "change_scene ?st2 1 = Returns (st, ?v j3)" by simp
      from r1 e have r1': "change_scene st 1 = Returns (st, ?v j)" by simp
      from r2 e have r2': "change_scene st (- 1) = Returns (?st2, ?v j2)" by simp
      have "change_scene st 1 = Returns (st, ?v j)
          \<and> change_scene st (- 1) = Returns (?st2, ?v j2)
          \<and> change_scene ?st2 1 = Returns (st, ?v j3)
          \<and> change_scene st (- 1) = Returns (?st2, ?v j2)
          \<and> st = st \<and> ?st2 = st\<lparr>index := index ?st2\<rparr>
          \<and> (0 \<le> index ?st2 \<and> index ?st2 < index st \<and> ?acc (index ?st2)
              \<and> (\<forall>k. index ?st2 < k \<and> k < index st \<longrightarrow> \<not> ?acc k))"
        using r1' r2' r3' b2 lt a2 n2 by simp
      with False show ?thesis
        by (intro exI [of _ st] exI [of _ ?st2] exI) auto
    qed
  qed
qed

text \<open>
  On three scenes with the player on the last one and the middle one on a branch that
  is not active: \<open>advance(+1)\<close> stays, \<open>advance(-1)\<close> moves to scene 0 over the
  middle scene, and the pair applied again ends on scene 0 again.
\<close>

theorem advance_then_retreat_witness:
  "scenes gated_end_story \<noteq> [] \<and> 0 \<le> index gated_end_story
   \<and> index gated_end_story < int (length (scenes gated_end_story))
   \<and> spec_accessible (scenes gated_end_story ! nat (index gated_end_story))
       (active_paths gated_end_story)
   \<and> \<not> spec_accessible (scenes gated_end_story ! 1) (active_paths gated_end_story)
   \<and> (\<exists>st3 v1 v2 v3 v4.
         change_scene gated_end_story 1 = Returns (gated_end_story, v1)
       \<and> change_scene gated_end_story (- 1) = Returns (gated_end_story\<lparr>index := 0\<rparr>, v2)
       \<and> change_scene (gated_end_story\<lparr>index := 0\<rparr>) 1 = Returns (st3, v3)
       \<and> change_scene st3 (- 1) = Returns (gated_end_story\<lparr>index := 0\<rparr>, v4))"
proof -
  let ?g = gated_end_story
  let ?acc = "\<lambda>k. spec_accessible (scenes ?g ! nat k) (active_paths ?g)"
  have h1: "scenes ?g \<noteq> []" and h2: "0 \<le> index ?g"
    and h3: "index ?g < int (length (scenes ?g))"
    and h4: "spec_accessible (scenes ?g ! nat (index ?g)) (active_paths ?g)"
    by (simp_all add: gated_end_story_def spec_accessible_def plain_scene_def)
  have a1: "\<not> spec_accessible (scenes ?g ! 1) (active_paths ?g)"
    and a0: "spec_accessible (scenes ?g ! 0) (active_paths ?g)"
    by (simp_all add: gated_end_story_def spec_accessible_def plain_scene_def)
  have i2: "index ?g = 2" and n3: "int (length (scenes ?g)) = 3"
    by (simp_all add: gated_end_story_def)
  have none: "\<not> (\<exists>k. index ?g < k \<and> k < int (length (scenes ?g)) \<and> ?acc k)"
    using i2 n3 by auto
  from advance_then_retreat [OF h1 h2 h3 h4] none
  obtain st1 v1 st2 v2 st3 v3 v4 where r1: "change_scene ?g 1 = Returns (st1, v1)"
    and r2: "change_scene st1 (- 1) = Returns (st2, v2)"
    and r3: "change_scene st2 1 = Returns (st3, v3)"
    and r4: "change_scene st3 (- 1) = Returns (st2, v4)"
    and e1: "st1 = ?g" and e2: "st2 = ?g\<lparr>index := index st2\<rparr>"
    and c: "(index st2 = index ?g \<and> (\<forall>k. 0 \<le> k \<and> k < index ?g \<longrightarrow> \<not> ?acc k))
          \<or> (0 \<le> index st2 \<and> index st2 < index ?g \<and> ?acc (index st2)
              \<and> (\<forall>k. index st2 < k \<and> k < index ?g \<longrightarrow> \<not> ?acc k))"
    by auto
  have a0': "?acc 0" and a1': "\<not> ?acc 1" using a0 a1 by simp_all
  from c have "index st2 = 0"
  proof
    assume "index st2 = index ?g \<and> (\<forall>k. 0 \<le> k \<and> k < index ?g \<longrightarrow> \<not> ?acc k)"
    then have "\<forall>k. 0 \<le> k \<and> k < index ?g \<longrightarrow> \<not> ?acc k" by (rule conjunct2)
    from this [rule_format, of 0] i2 a0' show ?thesis by simp
  next
    assume s: "0 \<le> index st2 \<and> index st2 < index ?g \<and> ?acc (index st2)
              \<and> (\<forall>k. index st2 < k \<and> k < index ?g \<longrightarrow> \<not> ?acc k)"
    show ?thesis
    proof (rule ccontr)
      assume "index st2 \<noteq> 0"
      with s i2 have "index st2 = 1" by linarith
      with s a1' show False by simp
    qed
  qed
  with e2 have s2: "st2 = ?g\<lparr>index := 0\<rparr>" by simp
  from r1 e1 have q1: "change_scene ?g 1 = Returns (?g, v1)" by simp
  from r2 e1 s2 have q2: "change_scene ?g (- 1) = Returns (?g\<lparr>index := 0\<rparr>, v2)" by simp
  from r3 s2 have q3: "change_scene (?g\<lparr>index := 0\<rparr>) 1 = Returns (st3, v3)" by simp
  from r4 s2 have q4: "change_scene st3 (- 1) = Returns (?g\<lparr>index := 0\<rparr>, v4)" by simp
  from q1 q2 q3 q4 h1 h2 h3 h4 a1 show ?thesis by blast
qed

subsection \<open>Following a choice\<close>

text \<open>
  C6. The specification asks \<open>handle_choice\<close> to add the target scene's path to the
  active paths whenever that path is not absent.  The source tests
  \<open>if target_scene.path\<close>, which the empty string fails, where
  \<open>is_scene_accessible\<close> tests \<open>scene.path is None\<close>.  On a story whose choice
  leads to a scene tagged with the empty string (\<open>set_path("")\<close>), \<open>handle_choice\<close>
  moves to the target and leaves the active paths as they were.  The player then stands
  on a scene that is not accessible, and from there the fall-back of \<open>handle_choice\<close>
  (\<open>change_scene(story_state, 0)\<close>, taken because that scene has no choices) never
  returns.
\<close>

theorem handle_choice_empty_tag:
  "choices (scenes empty_tag_story ! nat (index empty_tag_story))
     = Some [\<lparr>choice_text = ''yes'', next_scene_index = 1\<rparr>]
   \<and> path (scenes empty_tag_story ! 1) = Some ''''
   \<and> handle_choice empty_tag_story 0
       = Returns (empty_tag_story\<lparr>index := 1\<rparr>, render_scene (plain_scene ''Hi'' (Some '''')) 1 2 [])
   \<and> '''' \<notin> active_paths (empty_tag_story\<lparr>index := 1\<rparr>)
   \<and> \<not> is_scene_accessible (scenes empty_tag_story ! 1) (active_paths (empty_tag_story\<lparr>index := 1\<rparr>))
   \<and> change_scene (empty_tag_story\<lparr>index := 1\<rparr>) 0 = Diverges
   \<and> handle_choice (empty_tag_story\<lparr>index := 1\<rparr>) 0 = Diverges"
proof -
  let ?st = "empty_tag_story\<lparr>index := 1\<rparr>"
  have a: "choices (scenes empty_tag_story ! nat (index empty_tag_story))
     = Some [\<lparr>choice_text = ''yes'', next_scene_index = 1\<rparr>]
   \<and> path (scenes empty_tag_story ! 1) = Some ''''
   \<and> handle_choice empty_tag_story 0
       = Returns (?st, render_scene (plain_scene ''Hi'' (Some '''')) 1 2 [])
   \<and> '''' \<notin> active_paths ?st"
    by (simp add: handle_choice_def empty_tag_story_def plain_scene_def py_index_def)
  have n: "\<not> is_scene_accessible (scenes empty_tag_story ! 1) (active_paths ?st)"
    by (simp add: empty_tag_story_def plain_scene_def is_scene_accessible_def)
  have d: "change_scene ?st 0 = Diverges"
    by (rule change_scene_stuck)
       (simp_all add: empty_tag_story_def plain_scene_def is_scene_accessible_def)
  have "handle_choice ?st 0 = change_scene ?st 0"
    by (simp add: handle_choice_def empty_tag_story_def plain_scene_def py_index_def)
  with a n d show ?thesis by simp
qed

subsection \<open>A story without scenes\<close>

text \<open>
  C4. With no scenes, \<open>change_scene\<close> returns the "No scenes available." outputs and
  the state as it was, in every direction.  \<open>handle_choice\<close> and \<open>handle_input\<close> do
  not: both read \<open>scenes[index]\<close> first and raise \<open>IndexError\<close>, whatever the index,
  the choice index and the input are.
\<close>

theorem no_scenes_raises:
  "handle_choice (empty_story\<lparr>index := i\<rparr>) ci = Raises IndexError
   \<and> handle_input (empty_story\<lparr>index := i\<rparr>) u = Raises IndexError
   \<and> change_scene (empty_story\<lparr>index := i\<rparr>) d
       = Returns (empty_story\<lparr>index := i\<rparr>, no_scenes_view)"
  by (simp add: handle_choice_def handle_input_def change_scene_def empty_story_def py_index_Nil)

subsection \<open>Rendering a text\<close>

text \<open>
  C8 as stated fails when a value itself holds a placeholder: the replacements are
  made one variable after the other on the whole text, so with \<open>a = "{b}"\<close> and
  \<open>b = "X"\<close> the text \<open>{a}\<close> is rendered as \<open>X\<close>, where replacing the placeholder
  by the value of \<open>a\<close> gives \<open>{b}\<close>.
\<close>

theorem render_text_counterexample:
  "render_text (pieces_text [Hole ''a'']) [(''a'', ''{b}''), (''b'', ''X'')] = ''X''
   \<and> substituted [(''a'', ''{b}''), (''b'', ''X'')] [Hole ''a''] = ''{b}''"
  by (simp add: render_text_def pieces_text_def substituted_def placeholder_def strip_def
      isspace_def py_replace.simps)

text \<open>
  C8, amended. When the scene text, stripped of the white space around it, is made of
  well-formed pieces, and no variable name holds a brace and no variable value holds
  an opening brace, the rendered text is the stripped text with every placeholder
  whose name is a key replaced by that variable's value and every other placeholder
  left verbatim.  (\<open>render_text\<close> is a total function: nothing is raised.)
\<close>

theorem render_text_substitutes:
  assumes "strip txt = pieces_text ps"
    and "\<forall>p \<in> set ps. well_formed_piece p"
    and "\<forall>(n, v) \<in> set vars. brace_free n \<and> CHR ''{'' \<notin> set v"
  shows "render_text txt vars = substituted vars ps"
  using replace_all_pieces [OF assms(3) assms(2)] assms(1)
  by (simp add: render_text_def)

theorem render_text_substitutes_witness:
  "strip '' Hi {n}, {m}! '' = pieces_text [Lit ''Hi '', Hole ''n'', Lit '', '', Hole ''m'', Lit ''!'']
   \<and> list_all well_formed_piece [Lit ''Hi '', Hole ''n'', Lit '', '', Hole ''m'', Lit ''!'']
   \<and> brace_free ''n'' \<and> CHR ''{'' \<notin> set ''Sam''
   \<and> render_text '' Hi {n}, {m}! '' [(''n'', ''Sam'')] = ''Hi Sam, {m}!''"
proof -
  let ?ps = "[Lit ''Hi '', Hole ''n'', Lit '', '', Hole ''m'', Lit ''!'']"
  have h1: "strip '' Hi {n}, {m}! '' = pieces_text ?ps"
    by (simp add: strip_def isspace_def pieces_text_def placeholder_def)
  have h2: "\<forall>p \<in> set ?ps. well_formed_piece p"
    by (simp add: brace_free_def)
  have h3: "\<forall>(n, v) \<in> set [(''n'', ''Sam'')]. brace_free n \<and> CHR ''{'' \<notin> set v"
    by (simp add: brace_free_def)
  from render_text_substitutes [OF h1 h2 h3]
  have "render_text '' Hi {n}, {m}! '' [(''n'', ''Sam'')] = ''Hi Sam, {m}!''"
    by (simp add: substituted_def placeholder_def)
  moreover from h2 have "list_all well_formed_piece ?ps" by (simp add: list_all_iff)
  moreover from h3 have "brace_free ''n'' \<and> CHR ''{'' \<notin> set ''Sam''" by simp
  ultimately show ?thesis using h1 by blast
qed

section \<open>Properties of the Builder\<close>

subsection \<open>Reading depends on the footprint only\<close>

lemma lookup_alloc: "lookup (h @ [ob]) x = (if x = length h then Some ob else lookup h x)"
  by (auto simp: lookup_def nth_append)

lemma lookup_store:
  "lookup (store h a ob) x = (if x = a \<and> a < length h then Some ob else lookup h x)"
  by (auto simp: lookup_def store_def)

lemma length_store [simp]: "length (store h a ob) = length h"
  by (simp add: store_def)

lemma lookup_Some_less: "lookup h x = Some ob \<Longrightarrow> x < length h"
  by (simp add: lookup_def split: if_splits)

lemma agree_refl: "agree h h X"
  by (simp add: agree_def)

lemma agree_mono: "agree h h' X \<Longrightarrow> Y \<subseteq> X \<Longrightarrow> agree h h' Y"
  by (auto simp: agree_def)

lemma ext_refl: "ext h h X"
  by (simp add: ext_def)

lemma ext_mono: "ext h h' X \<Longrightarrow> X \<subseteq> Y \<Longrightarrow> ext h h' Y"
  by (auto simp: ext_def)

lemma ext_trans: "ext h h1 X \<Longrightarrow> ext h1 h2 Y \<Longrightarrow> ext h h2 (X \<union> Y)"
  by (auto simp: ext_def)

lemma ext_alloc: "ext h (h @ [ob]) X"
  by (simp add: ext_def nth_append)

lemma ext_store: "ext h (store h a ob) {a}"
  by (simp add: ext_def store_def)

lemma ext_length: "ext h h' X \<Longrightarrow> length h \<le> length h'"
  by (simp add: ext_def)

lemma ext_agree:
  "ext h h' X \<Longrightarrow> F \<subseteq> {..<length h} \<Longrightarrow> F \<inter> X = {} \<Longrightarrow> agree h h' F"
  by (auto simp: ext_def agree_def lookup_def)

lemma those_map_cong:
  "(\<And>x. x \<in> set xs \<Longrightarrow> f x = g x) \<Longrightarrow> those (map f xs) = those (map g xs)"
  by (induction xs) (auto split: option.splits)

lemma those_map_Some:
  "those (map f xs) = Some ys \<Longrightarrow> x \<in> set xs \<Longrightarrow> f x \<noteq> None"
  by (induction xs arbitrary: ys) (auto split: option.splits)

lemma those_map_length:
  "those (map f xs) = Some ys \<Longrightarrow> length ys = length xs"
  by (induction xs arbitrary: ys) (auto split: option.splits)

lemma dict_agree:
  assumes "agree h h' (set (dict_fp h d))"
  shows "dict_at h' d = dict_at h d" and "dict_items h' d = dict_items h d"
    and "dict_fp h' d = dict_fp h d" and "read_dict h' d = read_dict h d"
proof -
  from assms have l: "lookup h' d = lookup h d"
    and s: "\<And>x. x \<in> snd ` set (dict_items h d) \<Longrightarrow> lookup h' x = lookup h x"
    by (auto simp: agree_def dict_fp_def)
  from l show a: "dict_at h' d = dict_at h d" by (simp add: dict_at_def)
  then show i: "dict_items h' d = dict_items h d" by (simp add: dict_items_def)
  then show "dict_fp h' d = dict_fp h d" by (simp add: dict_fp_def)
  have "those (map (\<lambda>(k, a). map_option (Pair k) (sprite_at h' a)) es)
        = those (map (\<lambda>(k, a). map_option (Pair k) (sprite_at h a)) es)"
    if "dict_at h d = Some es" for es
  proof (rule those_map_cong)
    fix x assume "x \<in> set es"
    with that have "snd x \<in> snd ` set (dict_items h d)" by (auto simp: dict_items_def)
    from s [OF this] show "(case x of (k, a) \<Rightarrow> map_option (Pair k) (sprite_at h' a))
              = (case x of (k, a) \<Rightarrow> map_option (Pair k) (sprite_at h a))"
      by (cases x) (simp add: sprite_at_def)
  qed
  with a show "read_dict h' d = read_dict h d"
    by (simp add: read_dict_def split: option.split)
qed

lemma list_agree:
  assumes "agree h h' (set (list_fp h l))"
  shows "list_at h' l = list_at h l" and "list_items h' l = list_items h l"
    and "list_fp h' l = list_fp h l"
    and "read_list choice_at h' l = read_list choice_at h l"
    and "read_list motor_at h' l = read_list motor_at h l"
proof -
  from assms have l: "lookup h' l = lookup h l"
    and s: "\<And>x. x \<in> set (list_items h l) \<Longrightarrow> lookup h' x = lookup h x"
    by (auto simp: agree_def list_fp_def)
  from l show a: "list_at h' l = list_at h l" by (simp add: list_at_def)
  then show i: "list_items h' l = list_items h l" by (simp add: list_items_def)
  then show "list_fp h' l = list_fp h l" by (simp add: list_fp_def)
  have c: "those (map (choice_at h') xs) = those (map (choice_at h) xs)"
    and m: "those (map (motor_at h') xs) = those (map (motor_at h) xs)"
    if "list_at h l = Some xs" for xs
    using that s by (auto intro!: those_map_cong simp: list_items_def choice_at_def motor_at_def)
  from a c show "read_list choice_at h' l = read_list choice_at h l"
    by (simp add: read_list_def split: option.split)
  from a m show "read_list motor_at h' l = read_list motor_at h l"
    by (simp add: read_list_def split: option.split)
qed

lemma scene_agree:
  assumes "agree h h' (set (scene_fp h a))"
  shows "scene_at h' a = scene_at h a" and "scene_fp h' a = scene_fp h a"
    and "read_scene h' a = read_scene h a"
proof -
  from assms have "lookup h' a = lookup h a" by (simp add: agree_def scene_fp_def)
  then show sa: "scene_at h' a = scene_at h a" by (simp add: scene_at_def)
  have parts: "dict_fp h' (characters s) = dict_fp h (characters s)
      \<and> read_dict h' (characters s) = read_dict h (characters s)
      \<and> opt_fp (list_fp h') (choices s) = opt_fp (list_fp h) (choices s)
      \<and> read_opt (read_list choice_at h') (choices s) = read_opt (read_list choice_at h) (choices s)
      \<and> read_opt (input_at h') (input_request s) = read_opt (input_at h) (input_request s)
      \<and> list_fp h' (motor_commands s) = list_fp h (motor_commands s)
      \<and> read_list motor_at h' (motor_commands s) = read_list motor_at h (motor_commands s)
      \<and> read_opt (pose_at h') (robot_pose s) = read_opt (pose_at h) (robot_pose s)"
    if s: "scene_at h a = Some s" for s
  proof -
    from assms s have d: "agree h h' (set (dict_fp h (characters s)))"
      and m: "agree h h' (set (list_fp h (motor_commands s)))"
      and c: "\<And>l. choices s = Some l \<Longrightarrow> agree h h' (set (list_fp h l))"
      and i: "\<And>x. input_request s = Some x \<Longrightarrow> lookup h' x = lookup h x"
      and p: "\<And>x. robot_pose s = Some x \<Longrightarrow> lookup h' x = lookup h x"
      by (auto simp: agree_def scene_fp_def opt_fp_def)
    show ?thesis
      using dict_agree [OF d] list_agree [OF m] list_agree [OF c] i p
      by (auto simp: opt_fp_def read_opt_def input_at_def pose_at_def split: option.splits)
  qed
  with sa show "scene_fp h' a = scene_fp h a"
    by (auto simp: scene_fp_def split: option.splits)
  from sa parts show "read_scene h' a = read_scene h a"
    by (auto simp: read_scene_def split: option.splits)
qed

lemma at_less:
  "scene_at h a = Some s \<Longrightarrow> a < length h"
  "sprite_at h a = Some c \<Longrightarrow> a < length h"
  "choice_at h a = Some ch \<Longrightarrow> a < length h"
  "input_at h a = Some r \<Longrightarrow> a < length h"
  "motor_at h a = Some m \<Longrightarrow> a < length h"
  "pose_at h a = Some p \<Longrightarrow> a < length h"
  "dict_at h a = Some es \<Longrightarrow> a < length h"
  "list_at h a = Some xs \<Longrightarrow> a < length h"
  by (auto simp: scene_at_def sprite_at_def choice_at_def input_at_def motor_at_def pose_at_def
      dict_at_def list_at_def lookup_def split: if_splits)

lemma read_dict_bounded:
  assumes "read_dict h d = Some cs"
  shows "set (dict_fp h d) \<subseteq> {..<length h}"
proof -
  from assms obtain es where es: "dict_at h d = Some es"
    and t: "those (map (\<lambda>(k, a). map_option (Pair k) (sprite_at h a)) es) = Some cs"
    by (auto simp: read_dict_def split: option.splits)
  have "a < length h" if "(k, a) \<in> set es" for k a
  proof -
    from those_map_Some [OF t that] obtain c where "sprite_at h a = Some c" by auto
    then show ?thesis by (rule at_less)
  qed
  with es at_less(7) [OF es] show ?thesis
    by (auto simp: dict_fp_def dict_items_def)
qed

lemma read_list_bounded:
  assumes "read_list rd h l = Some vs" and "\<And>x v. rd h x = Some v \<Longrightarrow> x < length h"
  shows "set (list_fp h l) \<subseteq> {..<length h}"
proof -
  from assms(1) obtain xs where xs: "list_at h l = Some xs"
    and t: "those (map (rd h) xs) = Some vs"
    by (auto simp: read_list_def split: option.splits)
  have "x < length h" if "x \<in> set xs" for x
  proof -
    from those_map_Some [OF t that] obtain v where "rd h x = Some v" by auto
    then show ?thesis by (rule assms(2))
  qed
  with xs at_less(8) [OF xs] show ?thesis
    by (auto simp: list_fp_def list_items_def)
qed

lemma read_scene_bounded:
  assumes "read_scene h a = Some v"
  shows "set (scene_fp h a) \<subseteq> {..<length h}"
proof -
  from assms obtain s cs chs inp ms pose where s: "scene_at h a = Some s"
    and r: "read_dict h (characters s) = Some cs"
       "read_opt (read_list choice_at h) (choices s) = Some chs"
       "read_opt (input_at h) (input_request s) = Some inp"
       "read_list motor_at h (motor_commands s) = Some ms"
       "read_opt (pose_at h) (robot_pose s) = Some pose"
    by (auto simp: read_scene_def split: option.splits)
  have "set (opt_fp (list_fp h) (choices s)) \<subseteq> {..<length h}"
    using r(2) read_list_bounded [of choice_at h _ _] at_less(3)
    by (auto simp: opt_fp_def read_opt_def split: option.splits)
  moreover have "set (opt_fp (\<lambda>i. [i]) (input_request s)) \<subseteq> {..<length h}"
    using r(3) at_less(4) by (auto simp: opt_fp_def read_opt_def split: option.splits)
  moreover have "set (opt_fp (\<lambda>i. [i]) (robot_pose s)) \<subseteq> {..<length h}"
    using r(5) at_less(6) by (auto simp: opt_fp_def read_opt_def split: option.splits)
  moreover have "set (list_fp h (motor_commands s)) \<subseteq> {..<length h}"
    using r(4) at_less(5) by (rule read_list_bounded)
  moreover note read_dict_bounded [OF r(1)] at_less(1) [OF s]
  ultimately show ?thesis using s by (auto simp: scene_fp_def)
qed

lemma wf_scene_bounded: "wf_scene h a \<Longrightarrow> set (scene_fp h a) \<subseteq> {..<length h}"
  using read_scene_bounded by (auto simp: wf_scene_def)

lemma wf_dict_bounded: "wf_dict h d \<Longrightarrow> set (dict_fp h d) \<subseteq> {..<length h}"
  using read_dict_bounded by (auto simp: wf_dict_def)

lemma self_in_fp: "a \<in> set (scene_fp h a)" "d \<in> set (dict_fp h d)" "l \<in> set (list_fp h l)"
  by (simp_all add: scene_fp_def dict_fp_def list_fp_def)

lemma wf_scene_agree: "wf_scene h a \<Longrightarrow> agree h h' (set (scene_fp h a)) \<Longrightarrow> wf_scene h' a"
  by (simp add: wf_scene_def scene_agree)

lemma wf_dict_agree: "wf_dict h d \<Longrightarrow> agree h h' (set (dict_fp h d)) \<Longrightarrow> wf_dict h' d"
  by (simp add: wf_dict_def dict_agree)

subsection \<open>Deep copies are made of new objects\<close>

lemma copy_sprites_spec:
  assumes "copy_sprites h es = (h', es')"
    and "those (map (\<lambda>(k, a). map_option (Pair k) (sprite_at h a)) es) = Some cs"
  shows "ext h h' {}
    \<and> those (map (\<lambda>(k, a). map_option (Pair k) (sprite_at h' a)) es') = Some cs
    \<and> distinct (map snd es') \<and> set (map snd es') \<subseteq> {length h ..< length h'}"
  using assms
proof (induction es arbitrary: h h' es' cs)
  case Nil
  then show ?case by (auto simp: ext_refl)
next
  case (Cons e es)
  obtain k a where e: "e = (k, a)" by (cases e)
  from Cons.prems(2) e obtain s cs1 where s: "sprite_at h a = Some s"
    and t: "those (map (\<lambda>(k, a). map_option (Pair k) (sprite_at h a)) es) = Some cs1"
    and cs: "cs = (k, s) # cs1"
    by (auto split: option.splits)
  let ?h1 = "h @ [Sprite s]"
  obtain h2 es2 where c2: "copy_sprites ?h1 es = (h2, es2)" by (cases "copy_sprites ?h1 es")
  with Cons.prems(1) e s have r: "h' = h2" "es' = (k, length h) # es2"
    by (auto simp: alloc_def)
  have same: "sprite_at ?h1 x = sprite_at h x" if "x < length h" for x
    using that by (simp add: sprite_at_def lookup_alloc)
  have "those (map (\<lambda>(k, a). map_option (Pair k) (sprite_at ?h1 a)) es) = Some cs1"
  proof -
    have "those (map (\<lambda>(k, a). map_option (Pair k) (sprite_at ?h1 a)) es)
          = those (map (\<lambda>(k, a). map_option (Pair k) (sprite_at h a)) es)"
    proof (rule those_map_cong)
      fix x assume x: "x \<in> set es"
      from those_map_Some [OF t x] have "snd x < length h"
        by (cases x) (auto dest: at_less(2))
      from same [OF this] show "(case x of (k, a) \<Rightarrow> map_option (Pair k) (sprite_at ?h1 a))
          = (case x of (k, a) \<Rightarrow> map_option (Pair k) (sprite_at h a))"
        by (cases x) simp
    qed
    with t show ?thesis by simp
  qed
  from Cons.IH [OF c2 this] have ih: "ext ?h1 h2 {}"
    "those (map (\<lambda>(k, a). map_option (Pair k) (sprite_at h2 a)) es2) = Some cs1"
    "distinct (map snd es2)" "set (map snd es2) \<subseteq> {length ?h1 ..< length h2}"
    by auto
  have e02: "ext h h2 {}" using ext_trans [OF ext_alloc [of h "Sprite s" "{}"] ih(1)] by simp
  have "h2 ! length h = Sprite s" using ih(1) by (auto simp: ext_def)
  moreover have "length h < length h2" using ih(1) by (auto simp: ext_def)
  ultimately have new: "sprite_at h2 (length h) = Some s"
    by (simp add: sprite_at_def lookup_def)
  have "length h \<notin> set (map snd es2)" using ih(4) by auto
  moreover have "set (map snd es2) \<subseteq> {length h ..< length h2}" using ih(4) by auto
  ultimately show ?case using r e02 new ih(2,3) cs \<open>length h < length h2\<close> by auto
qed

lemma deepcopy_dict_spec:
  assumes "deepcopy_dict h d = (h', d')" and "read_dict h d = Some cs"
  shows "ext h h' {}" and "read_dict h' d' = Some cs" and "distinct (dict_fp h' d')"
    and "set (dict_fp h' d') \<subseteq> {length h ..< length h'}"
proof -
  from assms(2) obtain es where es: "dict_at h d = Some es"
    and t: "those (map (\<lambda>(k, a). map_option (Pair k) (sprite_at h a)) es) = Some cs"
    by (auto simp: read_dict_def split: option.splits)
  obtain h1 es1 where c: "copy_sprites h es = (h1, es1)" by (cases "copy_sprites h es")
  from copy_sprites_spec [OF c t] have s: "ext h h1 {}"
    "those (map (\<lambda>(k, a). map_option (Pair k) (sprite_at h1 a)) es1) = Some cs"
    "distinct (map snd es1)" "set (map snd es1) \<subseteq> {length h ..< length h1}"
    by auto
  from assms(1) es c have r: "h' = h1 @ [SpriteDict es1]" "d' = length h1"
    by (auto simp: deepcopy_dict_def dict_items_def alloc_def)
  show "ext h h' {}" using ext_trans [OF s(1) ext_alloc [of h1 "SpriteDict es1" "{}"]] r by simp
  have da: "dict_at h' d' = Some es1" using r by (simp add: dict_at_def lookup_alloc)
  have "those (map (\<lambda>(k, a). map_option (Pair k) (sprite_at h' a)) es1)
        = those (map (\<lambda>(k, a). map_option (Pair k) (sprite_at h1 a)) es1)"
  proof (rule those_map_cong)
    fix x assume "x \<in> set es1"
    with s(4) have "snd x < length h1" by auto
    then show "(case x of (k, a) \<Rightarrow> map_option (Pair k) (sprite_at h' a))
          = (case x of (k, a) \<Rightarrow> map_option (Pair k) (sprite_at h1 a))"
      using r by (cases x) (simp add: sprite_at_def lookup_alloc)
  qed
  with s(2) da show "read_dict h' d' = Some cs" by (simp add: read_dict_def)
  from da have fp: "dict_fp h' d' = length h1 # map snd es1"
    using r by (simp add: dict_fp_def dict_items_def)
  from s(4) have "length h1 \<notin> set (map snd es1)" by auto
  with s(3) fp show "distinct (dict_fp h' d')" by simp
  from s(1) have "length h \<le> length h1" by (rule ext_length)
  with s(4) fp r show "set (dict_fp h' d') \<subseteq> {length h ..< length h'}" by auto
qed

subsection \<open>The parts of a well-formed scene\<close>

lemma wf_scene_parts:
  assumes "wf_scene h a" and "scene_at h a = Some s"
  shows "wf_dict h (characters s)"
    and "read_opt (read_list choice_at h) (choices s) \<noteq> None"
    and "read_opt (input_at h) (input_request s) \<noteq> None"
    and "read_list motor_at h (motor_commands s) \<noteq> None"
    and "read_opt (pose_at h) (robot_pose s) \<noteq> None"
    and "distinct (a # dict_fp h (characters s) @ opt_fp (list_fp h) (choices s)
              @ opt_fp (\<lambda>i. [i]) (input_request s) @ list_fp h (motor_commands s)
              @ opt_fp (\<lambda>p. [p]) (robot_pose s))"
    and "set (a # dict_fp h (characters s) @ opt_fp (list_fp h) (choices s)
              @ opt_fp (\<lambda>i. [i]) (input_request s) @ list_fp h (motor_commands s)
              @ opt_fp (\<lambda>p. [p]) (robot_pose s)) \<subseteq> {..<length h}"
proof -
  from assms have fp: "scene_fp h a = a # dict_fp h (characters s) @ opt_fp (list_fp h) (choices s)
              @ opt_fp (\<lambda>i. [i]) (input_request s) @ list_fp h (motor_commands s)
              @ opt_fp (\<lambda>p. [p]) (robot_pose s)"
    by (simp add: scene_fp_def)
  from assms(1) have d: "distinct (scene_fp h a)" and r: "read_scene h a \<noteq> None"
    by (simp_all add: wf_scene_def)
  from d fp show "distinct (a # dict_fp h (characters s) @ opt_fp (list_fp h) (choices s)
              @ opt_fp (\<lambda>i. [i]) (input_request s) @ list_fp h (motor_commands s)
              @ opt_fp (\<lambda>p. [p]) (robot_pose s))" by simp
  from wf_scene_bounded [OF assms(1)] fp
  show "set (a # dict_fp h (characters s) @ opt_fp (list_fp h) (choices s)
              @ opt_fp (\<lambda>i. [i]) (input_request s) @ list_fp h (motor_commands s)
              @ opt_fp (\<lambda>p. [p]) (robot_pose s)) \<subseteq> {..<length h}" by simp
  from r assms(2) have rr: "read_dict h (characters s) \<noteq> None"
    "read_opt (read_list choice_at h) (choices s) \<noteq> None"
    "read_opt (input_at h) (input_request s) \<noteq> None"
    "read_list motor_at h (motor_commands s) \<noteq> None"
    "read_opt (pose_at h) (robot_pose s) \<noteq> None"
    by (auto simp: read_scene_def split: option.splits)
  from rr show "read_opt (read_list choice_at h) (choices s) \<noteq> None"
    "read_opt (input_at h) (input_request s) \<noteq> None"
    "read_list motor_at h (motor_commands s) \<noteq> None"
    "read_opt (pose_at h) (robot_pose s) \<noteq> None" by simp_all
  from d fp have "distinct (dict_fp h (characters s))" by simp
  with rr(1) show "wf_dict h (characters s)" by (simp add: wf_dict_def)
qed

lemma wf_sceneI:
  assumes "scene_at h a = Some s"
    and "read_dict h (characters s) \<noteq> None"
    and "read_opt (read_list choice_at h) (choices s) \<noteq> None"
    and "read_opt (input_at h) (input_request s) \<noteq> None"
    and "read_list motor_at h (motor_commands s) \<noteq> None"
    and "read_opt (pose_at h) (robot_pose s) \<noteq> None"
    and "distinct (a # dict_fp h (characters s) @ opt_fp (list_fp h) (choices s)
              @ opt_fp (\<lambda>i. [i]) (input_request s) @ list_fp h (motor_commands s)
              @ opt_fp (\<lambda>p. [p]) (robot_pose s))"
  shows "wf_scene h a"
  using assms unfolding wf_scene_def
  by (auto simp: read_scene_def scene_fp_def split: option.splits)

lemma wf_scene_at: "wf_scene h a \<Longrightarrow> \<exists>s. scene_at h a = Some s"
  by (auto simp: wf_scene_def read_scene_def split: option.splits)

text \<open>A part of a scene is read the same way after writes that miss it.\<close>

lemma part_frame:
  assumes "ext h h' X" and "set F \<subseteq> {..<length h}" and "set F \<inter> X = {}"
  shows "F = dict_fp h d \<Longrightarrow> dict_fp h' d = dict_fp h d \<and> read_dict h' d = read_dict h d"
    and "F = list_fp h l \<Longrightarrow> list_fp h' l = list_fp h l
           \<and> read_list choice_at h' l = read_list choice_at h l
           \<and> read_list motor_at h' l = read_list motor_at h l"
    and "F = [x] \<Longrightarrow> lookup h' x = lookup h x"
  using ext_agree [OF assms] dict_agree [of h h' d] list_agree [of h h' l]
  by (auto simp: agree_def)

subsection \<open>Changes that are local to a scene\<close>

lemma local_change_refl: "wf_scene h a \<Longrightarrow> local_change h a h"
  by (simp add: local_change_def ext_refl)

lemma local_change_trans:
  assumes "local_change h a h1" and "local_change h1 a h2"
  shows "local_change h a h2"
proof -
  from assms have e1: "ext h h1 (set (scene_fp h a))" and e2: "ext h1 h2 (set (scene_fp h1 a))"
    and s1: "set (scene_fp h1 a) \<subseteq> set (scene_fp h a) \<union> {length h ..< length h1}"
    and s2: "set (scene_fp h2 a) \<subseteq> set (scene_fp h1 a) \<union> {length h1 ..< length h2}"
    and w: "wf_scene h2 a"
    by (simp_all add: local_change_def)
  have "ext h h2 (set (scene_fp h a))"
    unfolding ext_def
  proof (intro conjI allI impI)
    show "length h \<le> length h2" using e1 e2 by (auto simp: ext_def)
    fix x assume x: "x < length h \<and> x \<notin> set (scene_fp h a)"
    with s1 have "x \<notin> set (scene_fp h1 a)" by auto
    moreover have "x < length h1" using x e1 by (auto simp: ext_def)
    ultimately have "h2 ! x = h1 ! x" using e2 by (auto simp: ext_def)
    also have "h1 ! x = h ! x" using x e1 by (auto simp: ext_def)
    finally show "h2 ! x = h ! x" .
  qed
  moreover have "set (scene_fp h2 a) \<subseteq> set (scene_fp h a) \<union> {length h ..< length h2}"
  proof -
    have "length h \<le> length h1" "length h1 \<le> length h2" using e1 e2 by (auto simp: ext_def)
    with s1 s2 show ?thesis by fastforce
  qed
  ultimately show ?thesis using w by (simp add: local_change_def)
qed

lemma local_update_scene:
  assumes w: "wf_scene h a"
    and k: "\<And>s. characters (f s) = characters s \<and> choices (f s) = choices s
              \<and> input_request (f s) = input_request s
              \<and> motor_commands (f s) = motor_commands s \<and> robot_pose (f s) = robot_pose s"
  shows "local_change h a (update_scene h a f)"
proof -
  from wf_scene_at [OF w] obtain s where s: "scene_at h a = Some s" by blast
  let ?h = "store h a (SceneObj (f s))"
  have u: "update_scene h a f = ?h" using s by (simp add: update_scene_def)
  note p = wf_scene_parts [OF w s]
  have e: "ext h ?h {a}" by (rule ext_store)
  have al: "a < length h" using s by (rule at_less)
  have s': "scene_at ?h a = Some (f s)" using al by (simp add: scene_at_def lookup_store)
  have d: "dict_fp ?h (characters s) = dict_fp h (characters s)
           \<and> read_dict ?h (characters s) = read_dict h (characters s)"
    using p(6,7) by (intro part_frame(1) [OF e, of "dict_fp h (characters s)"]) auto
  have m: "list_fp ?h (motor_commands s) = list_fp h (motor_commands s)
           \<and> read_list choice_at ?h (motor_commands s) = read_list choice_at h (motor_commands s)
           \<and> read_list motor_at ?h (motor_commands s) = read_list motor_at h (motor_commands s)"
    using p(6,7) by (intro part_frame(2) [OF e, of "list_fp h (motor_commands s)"]) auto
  have c: "opt_fp (list_fp ?h) (choices s) = opt_fp (list_fp h) (choices s)
           \<and> read_opt (read_list choice_at ?h) (choices s) = read_opt (read_list choice_at h) (choices s)"
  proof (cases "choices s")
    case None
    then show ?thesis by (simp add: opt_fp_def read_opt_def)
  next
    case (Some l)
    with p(6,7) have "list_fp ?h l = list_fp h l
           \<and> read_list choice_at ?h l = read_list choice_at h l
           \<and> read_list motor_at ?h l = read_list motor_at h l"
      by (intro part_frame(2) [OF e, of "list_fp h l"]) (auto simp: opt_fp_def)
    with Some show ?thesis by (simp add: opt_fp_def read_opt_def)
  qed
  have i: "read_opt (input_at ?h) (input_request s) = read_opt (input_at h) (input_request s)"
  proof (cases "input_request s")
    case None
    then show ?thesis by (simp add: read_opt_def)
  next
    case (Some x)
    with p(6,7) have "lookup ?h x = lookup h x"
      by (intro part_frame(3) [OF e, of "[x]"]) (auto simp: opt_fp_def)
    with Some show ?thesis by (simp add: read_opt_def input_at_def)
  qed
  have r: "read_opt (pose_at ?h) (robot_pose s) = read_opt (pose_at h) (robot_pose s)"
  proof (cases "robot_pose s")
    case None
    then show ?thesis by (simp add: read_opt_def)
  next
    case (Some x)
    with p(6,7) have "lookup ?h x = lookup h x"
      by (intro part_frame(3) [OF e, of "[x]"]) (auto simp: opt_fp_def)
    with Some show ?thesis by (simp add: read_opt_def pose_at_def)
  qed
  have fp: "scene_fp ?h a = scene_fp h a"
    using s s' k d m c by (simp add: scene_fp_def)
  have "wf_scene ?h a"
    using s' p k d m c i r
    by (intro wf_sceneI [of ?h a "f s"]) (simp_all add: wf_dict_def)
  moreover have "ext h ?h (set (scene_fp h a))"
    using e by (rule ext_mono) (simp add: self_in_fp)
  ultimately show ?thesis using fp u by (simp add: local_change_def)
qed

lemma those_map_defined:
  "those (map g xs) \<noteq> None \<longleftrightarrow> (\<forall>x \<in> set xs. g x \<noteq> None)"
  by (induction xs) (auto split: option.splits)

lemma those_map_definedD:
  "those (map g xs) \<noteq> None \<Longrightarrow> x \<in> set xs \<Longrightarrow> g x \<noteq> None"
  using those_map_defined [of g xs] by blast

lemma parts_frame:
  assumes w: "wf_scene h a" and s: "scene_at h a = Some s" and e: "ext h h' X"
  shows "set (dict_fp h (characters s)) \<inter> X = {} \<Longrightarrow>
           dict_fp h' (characters s) = dict_fp h (characters s)
           \<and> read_dict h' (characters s) = read_dict h (characters s)"
    and "set (opt_fp (list_fp h) (choices s)) \<inter> X = {} \<Longrightarrow>
           opt_fp (list_fp h') (choices s) = opt_fp (list_fp h) (choices s)
           \<and> read_opt (read_list choice_at h') (choices s)
               = read_opt (read_list choice_at h) (choices s)"
    and "set (opt_fp (\<lambda>i. [i]) (input_request s)) \<inter> X = {} \<Longrightarrow>
           read_opt (input_at h') (input_request s) = read_opt (input_at h) (input_request s)"
    and "set (list_fp h (motor_commands s)) \<inter> X = {} \<Longrightarrow>
           list_fp h' (motor_commands s) = list_fp h (motor_commands s)
           \<and> read_list motor_at h' (motor_commands s) = read_list motor_at h (motor_commands s)"
    and "set (opt_fp (\<lambda>p. [p]) (robot_pose s)) \<inter> X = {} \<Longrightarrow>
           read_opt (pose_at h') (robot_pose s) = read_opt (pose_at h) (robot_pose s)"
    and "a \<notin> X \<Longrightarrow> scene_at h' a = scene_at h a"
proof -
  note p = wf_scene_parts [OF w s]
  show "dict_fp h' (characters s) = dict_fp h (characters s)
           \<and> read_dict h' (characters s) = read_dict h (characters s)"
    if "set (dict_fp h (characters s)) \<inter> X = {}"
    using p(7) that by (intro part_frame(1) [OF e, of "dict_fp h (characters s)"]) auto
  show "list_fp h' (motor_commands s) = list_fp h (motor_commands s)
           \<and> read_list motor_at h' (motor_commands s) = read_list motor_at h (motor_commands s)"
    if "set (list_fp h (motor_commands s)) \<inter> X = {}"
    using p(7) that part_frame(2) [OF e, of "list_fp h (motor_commands s)" "motor_commands s"]
    by auto
  show "opt_fp (list_fp h') (choices s) = opt_fp (list_fp h) (choices s)
           \<and> read_opt (read_list choice_at h') (choices s)
               = read_opt (read_list choice_at h) (choices s)"
    if d: "set (opt_fp (list_fp h) (choices s)) \<inter> X = {}"
  proof (cases "choices s")
    case None
    then show ?thesis by (simp add: opt_fp_def read_opt_def)
  next
    case (Some l)
    with p(7) d part_frame(2) [OF e, of "list_fp h l" l]
    show ?thesis by (auto simp: opt_fp_def read_opt_def)
  qed
  show "read_opt (input_at h') (input_request s) = read_opt (input_at h) (input_request s)"
    if d: "set (opt_fp (\<lambda>i. [i]) (input_request s)) \<inter> X = {}"
  proof (cases "input_request s")
    case None
    then show ?thesis by (simp add: read_opt_def)
  next
    case (Some x)
    with p(7) d part_frame(3) [OF e, of "[x]" x]
    show ?thesis by (auto simp: opt_fp_def read_opt_def input_at_def)
  qed
  show "read_opt (pose_at h') (robot_pose s) = read_opt (pose_at h) (robot_pose s)"
    if d: "set (opt_fp (\<lambda>p. [p]) (robot_pose s)) \<inter> X = {}"
  proof (cases "robot_pose s")
    case None
    then show ?thesis by (simp add: read_opt_def)
  next
    case (Some x)
    with p(7) d part_frame(3) [OF e, of "[x]" x]
    show ?thesis by (auto simp: opt_fp_def read_opt_def pose_at_def)
  qed
  show "scene_at h' a = scene_at h a" if "a \<notin> X"
    using that p(7) part_frame(3) [OF e, of "[a]" a] by (auto simp: scene_at_def)
qed

lemma local_with_character:
  assumes w: "wf_scene h a"
  shows "local_change h a (with_character nm f h a)"
proof -
  from wf_scene_at [OF w] obtain s where s: "scene_at h a = Some s" by blast
  note p = wf_scene_parts [OF w s]
  let ?d = "characters s"
  show ?thesis
  proof (cases "map_of (dict_items h ?d) nm")
    case None
    with s have "with_character nm f h a = h" by (simp add: with_character_def)
    with w show ?thesis by (simp add: local_change_refl)
  next
    case (Some sa)
    then have mem: "(nm, sa) \<in> set (dict_items h ?d)" by (rule map_of_SomeD)
    from p(1) obtain es where es: "dict_at h ?d = Some es"
      and t: "those (map (\<lambda>(k, x). map_option (Pair k) (sprite_at h x)) es) \<noteq> None"
      by (auto simp: wf_dict_def read_dict_def split: option.splits)
    from es mem have mem': "(nm, sa) \<in> set es" by (simp add: dict_items_def)
    from t mem' have "(case (nm, sa) of (k, x) \<Rightarrow> map_option (Pair k) (sprite_at h x)) \<noteq> None"
      by (rule those_map_definedD)
    then obtain c where c: "sprite_at h sa = Some c" by auto
    let ?h = "store h sa (Sprite (f c))"
    have u: "with_character nm f h a = ?h"
      using s Some c by (simp add: with_character_def update_sprite_def)
    have e: "ext h ?h {sa}" by (rule ext_store)
    have sal: "sa < length h" using c by (rule at_less)
    have in_d: "sa \<in> snd ` set (dict_items h ?d)" using mem by force
    have fpd: "dict_fp h ?d = ?d # map snd (dict_items h ?d)" by (simp add: dict_fp_def)
    from p(6) fpd have sep: "a \<notin> snd ` set (dict_items h ?d)"
      "?d \<notin> snd ` set (dict_items h ?d)"
      "snd ` set (dict_items h ?d) \<inter> set (opt_fp (list_fp h) (choices s)) = {}"
      "snd ` set (dict_items h ?d) \<inter> set (opt_fp (\<lambda>i. [i]) (input_request s)) = {}"
      "snd ` set (dict_items h ?d) \<inter> set (list_fp h (motor_commands s)) = {}"
      "snd ` set (dict_items h ?d) \<inter> set (opt_fp (\<lambda>p. [p]) (robot_pose s)) = {}"
      by auto
    from sep in_d have ne: "sa \<noteq> a" "sa \<noteq> ?d"
      and o: "sa \<notin> set (opt_fp (list_fp h) (choices s))"
         "sa \<notin> set (opt_fp (\<lambda>i. [i]) (input_request s))"
         "sa \<notin> set (list_fp h (motor_commands s))"
         "sa \<notin> set (opt_fp (\<lambda>p. [p]) (robot_pose s))"
      by blast+
    note pf = parts_frame [OF w s e]
    have s': "scene_at ?h a = Some s" using pf(6) ne s by simp
    have da: "dict_at ?h ?d = Some es" using es ne by (simp add: dict_at_def lookup_store)
    have fpd': "dict_fp ?h ?d = dict_fp h ?d"
      using da es by (simp add: dict_fp_def dict_items_def)
    have "those (map (\<lambda>(k, x). map_option (Pair k) (sprite_at ?h x)) es) \<noteq> None"
      unfolding those_map_defined
    proof
      fix x assume x: "x \<in> set es"
      from t x have "(case x of (k, y) \<Rightarrow> map_option (Pair k) (sprite_at h y)) \<noteq> None"
        by (rule those_map_definedD)
      then show "(case x of (k, y) \<Rightarrow> map_option (Pair k) (sprite_at ?h y)) \<noteq> None"
        using sal by (cases x) (auto simp: sprite_at_def lookup_store)
    qed
    with da have rd: "read_dict ?h ?d \<noteq> None" by (simp add: read_dict_def)
    have fp: "scene_fp ?h a = scene_fp h a"
      using s s' fpd' pf(2,4) o by (simp add: scene_fp_def)
    have "wf_scene ?h a"
      using s' rd fpd' p pf(2,3,4,5) o
      by (intro wf_sceneI [of ?h a s]) simp_all
    moreover have "ext h ?h (set (scene_fp h a))"
      using e by (rule ext_mono) (use s fpd in_d in \<open>simp add: scene_fp_def\<close>)
    ultimately show ?thesis using fp u by (simp add: local_change_def)
  qed
qed

lemma local_set_note: "wf_scene h a \<Longrightarrow> local_change h a (set_note n h a)"
  unfolding set_note_def by (rule local_update_scene) simp_all

lemma those_map_snoc:
  "those (map g (xs @ [y]))
     = (case those (map g xs) of
          None \<Rightarrow> None
        | Some vs \<Rightarrow> (case g y of None \<Rightarrow> None | Some v \<Rightarrow> Some (vs @ [v])))"
  by (induction xs) (auto split: option.splits)

text \<open>A new object is allocated and the scene is made to refer to it.\<close>

lemma local_new_input:
  assumes w: "wf_scene h a"
  shows "local_change h a
           (let (h1, i) = alloc h (InputObj r)
            in update_scene h1 a (\<lambda>s. s\<lparr>input_request := Some i, scene_note := n\<rparr>))"
proof -
  from wf_scene_at [OF w] obtain s where s: "scene_at h a = Some s" by blast
  note p = wf_scene_parts [OF w s]
  have al: "a < length h" using s by (rule at_less)
  let ?h1 = "h @ [InputObj r]"
  let ?s = "s\<lparr>input_request := Some (length h), scene_note := n\<rparr>"
  let ?h = "store ?h1 a (SceneObj ?s)"
  have s1: "scene_at ?h1 a = Some s" using s al by (simp add: scene_at_def lookup_alloc)
  have u: "(let (h1, i) = alloc h (InputObj r)
            in update_scene h1 a (\<lambda>s. s\<lparr>input_request := Some i, scene_note := n\<rparr>)) = ?h"
    using s1 by (simp add: alloc_def update_scene_def)
  have e: "ext h ?h {a}"
    using ext_trans [OF ext_alloc [of h "InputObj r" "{}"] ext_store [of ?h1 a "SceneObj ?s"]]
    by simp
  note pf = parts_frame [OF w s e]
  have s': "scene_at ?h a = Some ?s" using al by (simp add: scene_at_def lookup_store)
  have i': "input_at ?h (length h) = Some r"
    using al by (simp add: input_at_def lookup_store lookup_alloc)
  from p(6) have na: "a \<notin> set (dict_fp h (characters s))"
    "a \<notin> set (opt_fp (list_fp h) (choices s))" "a \<notin> set (list_fp h (motor_commands s))"
    "a \<notin> set (opt_fp (\<lambda>p. [p]) (robot_pose s))" by auto
  from p(7) have fresh: "length h \<noteq> a" "length h \<notin> set (dict_fp h (characters s))"
    "length h \<notin> set (opt_fp (list_fp h) (choices s))"
    "length h \<notin> set (list_fp h (motor_commands s))"
    "length h \<notin> set (opt_fp (\<lambda>p. [p]) (robot_pose s))" by auto
  have o1: "opt_fp (\<lambda>i. [i]) (Some (length h)) = [length h]" by (simp add: opt_fp_def)
  have r1: "read_opt (input_at ?h) (Some (length h)) \<noteq> None"
    using i' by (simp add: read_opt_def)
  have fp: "scene_fp ?h a = a # dict_fp h (characters s) @ opt_fp (list_fp h) (choices s)
              @ [length h] @ list_fp h (motor_commands s) @ opt_fp (\<lambda>p. [p]) (robot_pose s)"
    using s' pf(1,2,4) na o1 by (simp add: scene_fp_def)
  have dist: "distinct (a # dict_fp h (characters s) @ opt_fp (list_fp h) (choices s)
              @ [length h] @ list_fp h (motor_commands s) @ opt_fp (\<lambda>p. [p]) (robot_pose s))"
    using p(6) fresh by auto
  have rd: "read_dict ?h (characters s) \<noteq> None" using pf(1) na p(1) by (simp add: wf_dict_def)
  have rc: "read_opt (read_list choice_at ?h) (choices s) \<noteq> None" using pf(2) na p(2) by simp
  have rm: "read_list motor_at ?h (motor_commands s) \<noteq> None" using pf(4) na p(4) by simp
  have rp: "read_opt (pose_at ?h) (robot_pose s) \<noteq> None" using pf(5) na p(5) by simp
  have "wf_scene ?h a"
    unfolding wf_scene_def
  proof
    show "read_scene ?h a \<noteq> None"
      using s' rd rc r1 rm rp by (auto simp: read_scene_def split: option.splits)
    show "distinct (scene_fp ?h a)" using fp dist by simp
  qed
  moreover have "ext h ?h (set (scene_fp h a))"
    using e by (rule ext_mono) (simp add: self_in_fp)
  moreover have "set (scene_fp ?h a) \<subseteq> set (scene_fp h a) \<union> {length h ..< length ?h}"
    using fp s by (auto simp: scene_fp_def)
  ultimately show ?thesis using u by (simp add: local_change_def)
qed

lemma local_new_pose:
  assumes w: "wf_scene h a"
  shows "local_change h a
           (let (h1, p) = alloc h (PoseObj r)
            in update_scene h1 a (\<lambda>s. s\<lparr>robot_pose := Some p, scene_note := n\<rparr>))"
proof -
  from wf_scene_at [OF w] obtain s where s: "scene_at h a = Some s" by blast
  note p = wf_scene_parts [OF w s]
  have al: "a < length h" using s by (rule at_less)
  let ?h1 = "h @ [PoseObj r]"
  let ?s = "s\<lparr>robot_pose := Some (length h), scene_note := n\<rparr>"
  let ?h = "store ?h1 a (SceneObj ?s)"
  have s1: "scene_at ?h1 a = Some s" using s al by (simp add: scene_at_def lookup_alloc)
  have u: "(let (h1, p) = alloc h (PoseObj r)
            in update_scene h1 a (\<lambda>s. s\<lparr>robot_pose := Some p, scene_note := n\<rparr>)) = ?h"
    using s1 by (simp add: alloc_def update_scene_def)
  have e: "ext h ?h {a}"
    using ext_trans [OF ext_alloc [of h "PoseObj r" "{}"] ext_store [of ?h1 a "SceneObj ?s"]]
    by simp
  note pf = parts_frame [OF w s e]
  have s': "scene_at ?h a = Some ?s" using al by (simp add: scene_at_def lookup_store)
  have i': "pose_at ?h (length h) = Some r"
    using al by (simp add: pose_at_def lookup_store lookup_alloc)
  from p(6) have na: "a \<notin> set (dict_fp h (characters s))"
    "a \<notin> set (opt_fp (list_fp h) (choices s))" "a \<notin> set (list_fp h (motor_commands s))"
    "a \<notin> set (opt_fp (\<lambda>i. [i]) (input_request s))" by auto
  from p(7) have fresh: "length h \<noteq> a" "length h \<notin> set (dict_fp h (characters s))"
    "length h \<notin> set (opt_fp (list_fp h) (choices s))"
    "length h \<notin> set (list_fp h (motor_commands s))"
    "length h \<notin> set (opt_fp (\<lambda>i. [i]) (input_request s))" by auto
  have o1: "opt_fp (\<lambda>i. [i]) (Some (length h)) = [length h]" by (simp add: opt_fp_def)
  have r1: "read_opt (pose_at ?h) (Some (length h)) \<noteq> None"
    using i' by (simp add: read_opt_def)
  have fp: "scene_fp ?h a = a # dict_fp h (characters s) @ opt_fp (list_fp h) (choices s)
              @ opt_fp (\<lambda>i. [i]) (input_request s) @ list_fp h (motor_commands s) @ [length h]"
    using s' pf(1,2,4) na o1 by (simp add: scene_fp_def)
  have dist: "distinct (a # dict_fp h (characters s) @ opt_fp (list_fp h) (choices s)
              @ opt_fp (\<lambda>i. [i]) (input_request s) @ list_fp h (motor_commands s) @ [length h])"
    using p(6) fresh by auto
  have rd: "read_dict ?h (characters s) \<noteq> None" using pf(1) na p(1) by (simp add: wf_dict_def)
  have rc: "read_opt (read_list choice_at ?h) (choices s) \<noteq> None" using pf(2) na p(2) by simp
  have rm: "read_list motor_at ?h (motor_commands s) \<noteq> None" using pf(4) na p(4) by simp
  have ri: "read_opt (input_at ?h) (input_request s) \<noteq> None" using pf(3) na p(3) by simp
  have "wf_scene ?h a"
    unfolding wf_scene_def
  proof
    show "read_scene ?h a \<noteq> None"
      using s' rd rc r1 rm ri by (auto simp: read_scene_def split: option.splits)
    show "distinct (scene_fp ?h a)" using fp dist by simp
  qed
  moreover have "ext h ?h (set (scene_fp h a))"
    using e by (rule ext_mono) (simp add: self_in_fp)
  moreover have "set (scene_fp ?h a) \<subseteq> set (scene_fp h a) \<union> {length h ..< length ?h}"
    using fp s by (auto simp: scene_fp_def)
  ultimately show ?thesis using u by (simp add: local_change_def)
qed

text \<open>An element is appended to a list of the scene.\<close>

lemma list_snoc_frame:
  assumes xs: "list_at h l = Some xs" and ll: "l < length h"
    and b: "set xs \<subseteq> {..<length h}" and nl: "l \<notin> set xs"
  shows "list_at (store (h @ [ob]) l (RefList (xs @ [length h]))) l = Some (xs @ [length h])"
    and "\<And>x. x \<in> set xs \<Longrightarrow> lookup (store (h @ [ob]) l (RefList (xs @ [length h]))) x = lookup h x"
    and "lookup (store (h @ [ob]) l (RefList (xs @ [length h]))) (length h) = Some ob"
    and "list_fp (store (h @ [ob]) l (RefList (xs @ [length h]))) l = l # xs @ [length h]"
proof -
  let ?h = "store (h @ [ob]) l (RefList (xs @ [length h]))"
  show a: "list_at ?h l = Some (xs @ [length h])"
    using ll by (simp add: list_at_def lookup_store)
  show "lookup ?h x = lookup h x" if "x \<in> set xs" for x
    using that b nl by (auto simp: lookup_store lookup_alloc)
  show "lookup ?h (length h) = Some ob"
    using ll by (simp add: lookup_store lookup_alloc)
  show "list_fp ?h l = l # xs @ [length h]"
    using a by (simp add: list_fp_def list_items_def)
qed

lemma local_append_motor:
  assumes w: "wf_scene h a"
  shows "local_change h a (append_motor c h a)"
proof -
  from wf_scene_at [OF w] obtain s where s: "scene_at h a = Some s" by blast
  note p = wf_scene_parts [OF w s]
  let ?l = "motor_commands s"
  let ?ob = "MotorObj \<lparr>motor_id = fst c, motor_position = snd c\<rparr>"
  from p(4) obtain xs where xs: "list_at h ?l = Some xs"
    and t: "those (map (motor_at h) xs) \<noteq> None"
    by (auto simp: read_list_def split: option.splits)
  have fpl: "list_fp h ?l = ?l # xs" using xs by (simp add: list_fp_def list_items_def)
  let ?h = "store (h @ [?ob]) ?l (RefList (xs @ [length h]))"
  have ll: "?l < length h" using xs by (rule at_less)
  have x1: "list_at (h @ [?ob]) ?l = Some xs" using xs ll by (simp add: list_at_def lookup_alloc)
  have u: "append_motor c h a = ?h"
    using s x1 by (simp add: append_motor_def alloc_def list_append_def)
  from p(6,7) fpl have b: "set xs \<subseteq> {..<length h}" and nl: "?l \<notin> set xs" by auto
  note f = list_snoc_frame [OF xs ll b nl, where ob = ?ob]
  have e: "ext h ?h {?l}"
    using ext_trans [OF ext_alloc [of h ?ob "{}"] ext_store [of "h @ [?ob]" ?l]] by simp
  note pf = parts_frame [OF w s e]
  from p(6) fpl have sep: "a \<noteq> ?l" "?l \<notin> set (dict_fp h (characters s))"
    "?l \<notin> set (opt_fp (list_fp h) (choices s))"
    "?l \<notin> set (opt_fp (\<lambda>i. [i]) (input_request s))"
    "?l \<notin> set (opt_fp (\<lambda>p. [p]) (robot_pose s))" by auto
  from p(7) have fresh: "length h \<noteq> a" "length h \<notin> set (dict_fp h (characters s))"
    "length h \<notin> set (opt_fp (list_fp h) (choices s))"
    "length h \<notin> set (opt_fp (\<lambda>i. [i]) (input_request s))"
    "length h \<notin> set (list_fp h ?l)"
    "length h \<notin> set (opt_fp (\<lambda>p. [p]) (robot_pose s))" by auto
  have s': "scene_at ?h a = Some s" using pf(6) sep s by simp
  have "those (map (motor_at ?h) (xs @ [length h])) \<noteq> None"
    unfolding those_map_defined
  proof
    fix x assume "x \<in> set (xs @ [length h])"
    then consider "x \<in> set xs" | "x = length h" by auto
    then show "motor_at ?h x \<noteq> None"
    proof cases
      case 1
      from those_map_definedD [OF t 1] f(2) [OF 1] show ?thesis by (simp add: motor_at_def)
    next
      case 2
      with f(3) show ?thesis by (simp add: motor_at_def)
    qed
  qed
  with f(1) have rm: "read_list motor_at ?h ?l \<noteq> None" by (simp add: read_list_def)
  have rd: "read_dict ?h (characters s) \<noteq> None" using pf(1) sep p(1) by (simp add: wf_dict_def)
  have rc: "read_opt (read_list choice_at ?h) (choices s) \<noteq> None" using pf(2) sep p(2) by simp
  have ri: "read_opt (input_at ?h) (input_request s) \<noteq> None" using pf(3) sep p(3) by simp
  have rp: "read_opt (pose_at ?h) (robot_pose s) \<noteq> None" using pf(5) sep p(5) by simp
  have fp: "scene_fp ?h a = a # dict_fp h (characters s) @ opt_fp (list_fp h) (choices s)
              @ opt_fp (\<lambda>i. [i]) (input_request s) @ (?l # xs @ [length h])
              @ opt_fp (\<lambda>p. [p]) (robot_pose s)"
    using s' pf(1,2) sep f(4) by (simp add: scene_fp_def)
  have dist: "distinct (a # dict_fp h (characters s) @ opt_fp (list_fp h) (choices s)
              @ opt_fp (\<lambda>i. [i]) (input_request s) @ (?l # xs @ [length h])
              @ opt_fp (\<lambda>p. [p]) (robot_pose s))"
    using p(6) fresh fpl by auto
  have "wf_scene ?h a"
    unfolding wf_scene_def
  proof
    show "read_scene ?h a \<noteq> None"
      using s' rd rc ri rm rp by (auto simp: read_scene_def split: option.splits)
    show "distinct (scene_fp ?h a)" using fp dist by simp
  qed
  moreover have "ext h ?h (set (scene_fp h a))"
    using e by (rule ext_mono) (use s fpl in \<open>simp add: scene_fp_def\<close>)
  moreover have "set (scene_fp ?h a) \<subseteq> set (scene_fp h a) \<union> {length h ..< length ?h}"
    using fp s fpl by (auto simp: scene_fp_def)
  ultimately show ?thesis using u by (simp add: local_change_def)
qed

lemma local_append_motors:
  "wf_scene h a \<Longrightarrow> local_change h a (foldl (\<lambda>h' c. append_motor c h' a) h cs)"
proof (induction cs rule: rev_induct)
  case Nil
  then show ?case by (simp add: local_change_refl)
next
  case (snoc c cs)
  let ?h1 = "foldl (\<lambda>h' c. append_motor c h' a) h cs"
  from snoc have l1: "local_change h a ?h1" by simp
  then have "wf_scene ?h1 a" by (simp add: local_change_def)
  then have "local_change ?h1 a (append_motor c ?h1 a)" by (rule local_append_motor)
  with l1 show ?case by (simp add: local_change_trans)
qed

text \<open>\<open>add_choice\<close> on a scene: what it changes and what the scene reads as afterwards.\<close>

lemma add_choice_to_spec:
  assumes w: "wf_scene h a" and v: "read_scene h a = Some v"
  shows "local_change h a (add_choice_to txt nxt h a)"
    and "read_scene (add_choice_to txt nxt h a) a
           = Some (v\<lparr>choices := Some ((case choices v of None \<Rightarrow> [] | Some cs \<Rightarrow> cs)
                                        @ [\<lparr>choice_text = txt, next_scene_index = nxt\<rparr>])\<rparr>)"
proof -
  let ?c = "\<lparr>choice_text = txt, next_scene_index = nxt\<rparr>"
  from wf_scene_at [OF w] obtain s where s: "scene_at h a = Some s" by blast
  note p = wf_scene_parts [OF w s]
  have al: "a < length h" using s by (rule at_less)
  from v s obtain cs chs inp ms pose where r: "read_dict h (characters s) = Some cs"
      "read_opt (read_list choice_at h) (choices s) = Some chs"
      "read_opt (input_at h) (input_request s) = Some inp"
      "read_list motor_at h (motor_commands s) = Some ms"
      "read_opt (pose_at h) (robot_pose s) = Some pose"
    and vv: "v = \<lparr> background_url = background_url s, background_label = background_label s,
                  characters = cs, speaker = speaker s, scene_text = scene_text s,
                  scene_note = scene_note s, show_camera = show_camera s,
                  show_voice = show_voice s, show_motors = show_motors s,
                  show_robot = show_robot s, background_blur = background_blur s,
                  stage_url = stage_url s, stage_blur = stage_blur s, choices = chs,
                  input_request = inp, path = path s, motor_commands = ms,
                  audio_file = audio_file s, robot_pose = pose \<rparr>"
    by (auto simp: read_scene_def split: option.splits)
  have main: "local_change h a (add_choice_to txt nxt h a)
    \<and> read_scene (add_choice_to txt nxt h a) a
           = Some (v\<lparr>choices := Some ((case choices v of None \<Rightarrow> [] | Some cs \<Rightarrow> cs) @ [?c])\<rparr>)"
  proof (cases "choices s")
    case None
    let ?l = "length h"
    let ?s = "s\<lparr>choices := Some ?l\<rparr>"
    let ?h1 = "h @ [RefList []]"
    let ?h2 = "store ?h1 a (SceneObj ?s)"
    let ?h3 = "?h2 @ [ChoiceObj ?c]"
    let ?h = "store ?h3 ?l (RefList [Suc ?l])"
    have s1: "scene_at ?h1 a = Some s" using s al by (simp add: scene_at_def lookup_alloc)
    have l3: "list_at ?h3 ?l = Some []"
      using al by (simp add: list_at_def lookup_alloc lookup_store)
    have s3: "scene_at ?h2 a = Some ?s" using al by (simp add: scene_at_def lookup_store)
    have u: "add_choice_to txt nxt h a = ?h"
      using s None s1 s3 l3
      by (simp add: add_choice_to_def alloc_def update_scene_def list_append_def)
    have e: "ext h ?h {a}"
      unfolding ext_def using al by (auto simp: store_def nth_append nth_list_update)
    note pf = parts_frame [OF w s e]
    from p(6) have na: "a \<notin> set (dict_fp h (characters s))"
      "a \<notin> set (opt_fp (\<lambda>i. [i]) (input_request s))"
      "a \<notin> set (list_fp h (motor_commands s))"
      "a \<notin> set (opt_fp (\<lambda>p. [p]) (robot_pose s))" by auto
    from p(7) have fresh: "\<And>x. x \<in> set (a # dict_fp h (characters s)
              @ opt_fp (\<lambda>i. [i]) (input_request s) @ list_fp h (motor_commands s)
              @ opt_fp (\<lambda>p. [p]) (robot_pose s)) \<Longrightarrow> x < ?l" by auto
    have s': "scene_at ?h a = Some ?s"
      using al by (simp add: scene_at_def lookup_store lookup_alloc)
    have la: "list_at ?h ?l = Some [Suc ?l]"
      by (simp add: list_at_def lookup_store)
    have ca: "choice_at ?h (Suc ?l) = Some ?c"
      by (simp add: choice_at_def lookup_store lookup_alloc)
    have rc: "read_opt (read_list choice_at ?h) (Some ?l) = Some (Some [?c])"
      using la ca by (simp add: read_opt_def read_list_def)
    have fc: "opt_fp (list_fp ?h) (Some ?l) = [?l, Suc ?l]"
      using la by (simp add: opt_fp_def list_fp_def list_items_def)
    have chs: "chs = None" using r(2) None by (simp add: read_opt_def)
    have rd: "read_dict ?h (characters s) = Some cs" using pf(1) na r(1) by simp
    have ri: "read_opt (input_at ?h) (input_request s) = Some inp" using pf(3) na r(3) by simp
    have rm: "read_list motor_at ?h (motor_commands s) = Some ms" using pf(4) na r(4) by simp
    have rp: "read_opt (pose_at ?h) (robot_pose s) = Some pose" using pf(5) na r(5) by simp
    have val: "read_scene ?h a = Some (v\<lparr>choices := Some ([] @ [?c])\<rparr>)"
      using s' rd rc ri rm rp vv by (simp add: read_scene_def)
    have fp: "scene_fp ?h a = a # dict_fp h (characters s) @ [?l, Suc ?l]
              @ opt_fp (\<lambda>i. [i]) (input_request s) @ list_fp h (motor_commands s)
              @ opt_fp (\<lambda>p. [p]) (robot_pose s)"
      using s' pf(1,4) na fc by (simp add: scene_fp_def)
    have fp0: "scene_fp h a = a # dict_fp h (characters s)
              @ opt_fp (\<lambda>i. [i]) (input_request s) @ list_fp h (motor_commands s)
              @ opt_fp (\<lambda>p. [p]) (robot_pose s)"
      using s None by (simp add: scene_fp_def opt_fp_def)
    have dist: "distinct (scene_fp ?h a)"
      using w fp0 fresh unfolding fp wf_scene_def by fastforce
    have "wf_scene ?h a" using val dist by (simp add: wf_scene_def)
    moreover have "ext h ?h (set (scene_fp h a))"
      using e by (rule ext_mono) (simp add: self_in_fp)
    moreover have "set (scene_fp ?h a) \<subseteq> set (scene_fp h a) \<union> {length h ..< length ?h}"
      unfolding fp fp0 by auto
    ultimately show ?thesis using u val chs vv by (simp add: local_change_def)
  next
    case (Some l)
    from r(2) Some obtain old where old: "read_list choice_at h l = Some old" and chs: "chs = Some old"
      by (auto simp: read_opt_def)
    from old obtain xs where xs: "list_at h l = Some xs"
      and t: "those (map (choice_at h) xs) = Some old"
      by (auto simp: read_list_def split: option.splits)
    have fpl: "list_fp h l = l # xs" using xs by (simp add: list_fp_def list_items_def)
    have fpc: "opt_fp (list_fp h) (choices s) = l # xs" using Some fpl by (simp add: opt_fp_def)
    let ?ob = "ChoiceObj ?c"
    let ?h = "store (h @ [?ob]) l (RefList (xs @ [length h]))"
    have ll: "l < length h" using xs by (rule at_less)
    have x1: "list_at (h @ [?ob]) l = Some xs" using xs ll by (simp add: list_at_def lookup_alloc)
    have u: "add_choice_to txt nxt h a = ?h"
      using s Some x1 by (simp add: add_choice_to_def alloc_def list_append_def)
    from p(6,7) fpc have b: "set xs \<subseteq> {..<length h}" and nl: "l \<notin> set xs" by auto
    note f = list_snoc_frame [OF xs ll b nl, where ob = ?ob]
    have e: "ext h ?h {l}"
      using ext_trans [OF ext_alloc [of h ?ob "{}"] ext_store [of "h @ [?ob]" l]] by simp
    note pf = parts_frame [OF w s e]
    from p(6) fpc have sep: "a \<noteq> l" "l \<notin> set (dict_fp h (characters s))"
      "l \<notin> set (opt_fp (\<lambda>i. [i]) (input_request s))"
      "l \<notin> set (list_fp h (motor_commands s))"
      "l \<notin> set (opt_fp (\<lambda>p. [p]) (robot_pose s))" by auto
    have s': "scene_at ?h a = Some s" using pf(6) sep s by simp
    have m: "map (choice_at ?h) xs = map (choice_at h) xs"
      using f(2) by (simp add: choice_at_def)
    have c: "choice_at ?h (length h) = Some ?c" using f(3) by (simp add: choice_at_def)
    have "those (map (choice_at ?h) (xs @ [length h])) = Some (old @ [?c])"
      unfolding those_map_snoc m c t by simp
    with f(1) have rc: "read_opt (read_list choice_at ?h) (choices s) = Some (Some (old @ [?c]))"
      using Some by (simp add: read_opt_def read_list_def)
    have rd: "read_dict ?h (characters s) = Some cs" using pf(1) sep r(1) by simp
    have ri: "read_opt (input_at ?h) (input_request s) = Some inp" using pf(3) sep r(3) by simp
    have rm: "read_list motor_at ?h (motor_commands s) = Some ms" using pf(4) sep r(4) by simp
    have rp: "read_opt (pose_at ?h) (robot_pose s) = Some pose" using pf(5) sep r(5) by simp
    have val: "read_scene ?h a = Some (v\<lparr>choices := Some (old @ [?c])\<rparr>)"
      using s' rd rc ri rm rp vv by (simp add: read_scene_def)
    have fp: "scene_fp ?h a = a # dict_fp h (characters s) @ (l # xs @ [length h])
              @ opt_fp (\<lambda>i. [i]) (input_request s) @ list_fp h (motor_commands s)
              @ opt_fp (\<lambda>p. [p]) (robot_pose s)"
      using s' pf(1,4) sep f(4) Some by (simp add: scene_fp_def opt_fp_def)
    have fp0: "scene_fp h a = a # dict_fp h (characters s) @ (l # xs)
              @ opt_fp (\<lambda>i. [i]) (input_request s) @ list_fp h (motor_commands s)
              @ opt_fp (\<lambda>p. [p]) (robot_pose s)"
      using s fpc by (simp add: scene_fp_def)
    have bd: "\<And>x. x \<in> set (scene_fp h a) \<Longrightarrow> x < length h"
      using wf_scene_bounded [OF w] by auto
    have dist: "distinct (scene_fp ?h a)"
      using w bd unfolding fp fp0 wf_scene_def by fastforce
    have "wf_scene ?h a" using val dist by (simp add: wf_scene_def)
    moreover have "ext h ?h (set (scene_fp h a))"
      using e by (rule ext_mono) (simp add: fp0)
    moreover have "set (scene_fp ?h a) \<subseteq> set (scene_fp h a) \<union> {length h ..< length ?h}"
      unfolding fp fp0 by auto
    ultimately show ?thesis using u val chs vv by (simp add: local_change_def)
  qed
  from main show "local_change h a (add_choice_to txt nxt h a)" by simp
  from main show "read_scene (add_choice_to txt nxt h a) a
           = Some (v\<lparr>choices := Some ((case choices v of None \<Rightarrow> [] | Some cs \<Rightarrow> cs) @ [?c])\<rparr>)"
    by simp
qed

subsection \<open>The invariant of the Builder\<close>

lemma wfI:
  assumes "list_at h (states b) = Some ss" and "distinct ss"
    and "\<And>a. a \<in> set ss \<Longrightarrow> wf_scene h a"
    and "wf_dict h (current_sprites b)"
    and "\<And>a a'. a \<in> set ss \<Longrightarrow> a' \<in> set ss \<Longrightarrow> a \<noteq> a'
           \<Longrightarrow> set (scene_fp h a) \<inter> set (scene_fp h a') = {}"
    and "\<And>a. a \<in> set ss \<Longrightarrow> set (dict_fp h (current_sprites b)) \<inter> set (scene_fp h a) = {}"
    and "states b \<notin> set (dict_fp h (current_sprites b))"
    and "\<And>a. a \<in> set ss \<Longrightarrow> states b \<notin> set (scene_fp h a)"
  shows "wf (h, b)"
  using assms unfolding wf_def by simp

lemma wfD:
  assumes "wf (h, b)"
  shows "\<exists>ss. list_at h (states b) = Some ss \<and> distinct ss
    \<and> (\<forall>a \<in> set ss. wf_scene h a)
    \<and> wf_dict h (current_sprites b)
    \<and> (\<forall>a \<in> set ss. \<forall>a' \<in> set ss. a \<noteq> a'
           \<longrightarrow> set (scene_fp h a) \<inter> set (scene_fp h a') = {})
    \<and> (\<forall>a \<in> set ss. set (dict_fp h (current_sprites b)) \<inter> set (scene_fp h a) = {})
    \<and> states b \<notin> set (dict_fp h (current_sprites b))
    \<and> (\<forall>a \<in> set ss. states b \<notin> set (scene_fp h a))"
  using assms unfolding wf_def by (simp split: option.splits)

lemma clone_state_spec:
  assumes c: "clone_state h b = (h1, a)" and r: "wf_dict h (current_sprites b)"
  shows "ext h h1 {}" and "wf_scene h1 a"
    and "set (scene_fp h1 a) \<subseteq> {length h ..< length h1}"
proof -
  from r obtain cs where cs: "read_dict h (current_sprites b) = Some cs"
    by (auto simp: wf_dict_def)
  obtain h' d where dc: "deepcopy_dict h (current_sprites b) = (h', d)"
    by (cases "deepcopy_dict h (current_sprites b)")
  note sp = deepcopy_dict_spec [OF dc cs]
  let ?m = "length h'"
  let ?h2 = "h' @ [RefList []]"
  obtain s where sdef: "s = \<lparr> background_url = current_background b,
                background_label = current_label b, characters = d, speaker = '''',
                scene_text = '''', scene_note = [],
                show_camera = current_show_camera b, show_voice = current_show_voice b,
                show_motors = current_show_motors b, show_robot = current_show_robot b,
                background_blur = current_background_blur b, stage_url = current_stage b,
                stage_blur = current_stage_blur b, choices = (None :: addr option),
                input_request = (None :: addr option), path = current_path b,
                motor_commands = ?m, audio_file = None, robot_pose = (None :: addr option) \<rparr>"
    by simp
  from c dc sdef have h1: "h1 = ?h2 @ [SceneObj s]" and a: "a = Suc ?m"
    by (simp_all add: clone_state_def alloc_def)
  have f: "characters s = d" "choices s = None" "input_request s = None"
    "motor_commands s = ?m" "robot_pose s = None"
    by (simp_all add: sdef)
  have e': "ext h' h1 {}"
    unfolding h1 ext_def by (auto simp: nth_append)
  show e: "ext h h1 {}" using ext_trans [OF sp(1) e'] by simp
  have le: "length h \<le> length h'" using sp(1) by (rule ext_length)
  have bd: "set (dict_fp h' d) \<subseteq> {..<length h'}" using sp(4) by auto
  have ag: "agree h' h1 (set (dict_fp h' d))"
    using e' bd by (rule ext_agree) simp
  have sa: "scene_at h1 a = Some s" unfolding h1 a by (simp add: scene_at_def lookup_def nth_append)
  have rd: "read_dict h1 d = Some cs" using dict_agree(4) [OF ag] sp(2) by simp
  have fd: "dict_fp h1 d = dict_fp h' d" using dict_agree(3) [OF ag] .
  have la: "list_at h1 ?m = Some []" unfolding h1 by (simp add: list_at_def lookup_def nth_append)
  have rm: "read_list motor_at h1 ?m = Some []" using la by (simp add: read_list_def)
  have fm: "list_fp h1 ?m = [?m]" using la by (simp add: list_fp_def list_items_def)
  have fp: "scene_fp h1 a = a # dict_fp h' d @ [?m]"
    using sa f fd fm by (simp add: scene_fp_def opt_fp_def)
  have "read_scene h1 a \<noteq> None"
    using sa f rd rm by (simp add: read_scene_def read_opt_def)
  moreover have "distinct (scene_fp h1 a)"
    unfolding fp using sp(3,4) a by auto
  ultimately show "wf_scene h1 a" by (simp add: wf_scene_def)
  show "set (scene_fp h1 a) \<subseteq> {length h ..< length h1}"
    unfolding fp using sp(4) a h1 le by auto
qed

lemma emit_spec:
  assumes w: "wf (h, b)"
    and loc: "\<And>h a. wf_scene h a \<Longrightarrow> local_change h a (change h a)"
    and em: "emit change (h, b) = (h', b')"
  shows "wf (h', b')" and "states b' = states b"
    and "\<exists>a. list_items h' (states b) = list_items h (states b) @ [a] \<and> read_scene h' a \<noteq> None"
    and "\<And>x. x \<in> set (list_items h (states b)) \<Longrightarrow> read_scene h' x = read_scene h x"
proof -
  from wfD [OF w] obtain ss where ss: "list_at h (states b) = Some ss" and dss: "distinct ss"
    and wss0: "\<forall>a \<in> set ss. wf_scene h a"
    and wd: "wf_dict h (current_sprites b)"
    and sep0: "\<forall>a \<in> set ss. \<forall>a' \<in> set ss. a \<noteq> a'
           \<longrightarrow> set (scene_fp h a) \<inter> set (scene_fp h a') = {}"
    and nst0: "\<forall>a \<in> set ss. states b \<notin> set (scene_fp h a)"
    by blast
  note wss = wss0 [rule_format] and sep = sep0 [rule_format] and nst = nst0 [rule_format]
  obtain h1 a where c: "clone_state h b = (h1, a)" by (cases "clone_state h b")
  note cl = clone_state_spec [OF c wd]
  let ?h2 = "change h1 a"
  from loc [OF cl(2)] have e2: "ext h1 ?h2 (set (scene_fp h1 a))" and w2: "wf_scene ?h2 a"
    and f2: "set (scene_fp ?h2 a) \<subseteq> set (scene_fp h1 a) \<union> {length h1 ..< length ?h2}"
    by (simp_all add: local_change_def)
  have len: "length h \<le> length h1" "length h1 \<le> length ?h2"
    using cl(1) e2 by (auto simp: ext_def)
  have e02: "ext h ?h2 {}"
    unfolding ext_def
  proof (intro conjI allI impI)
    show "length h \<le> length ?h2" using len by simp
    fix x assume x: "x < length h \<and> x \<notin> {}"
    with cl(3) have "x \<notin> set (scene_fp h1 a)" by auto
    moreover have "x < length h1" using x len by simp
    ultimately have "?h2 ! x = h1 ! x" using e2 by (auto simp: ext_def)
    also have "h1 ! x = h ! x" using x cl(1) by (auto simp: ext_def)
    finally show "?h2 ! x = h ! x" .
  qed
  have fa: "set (scene_fp ?h2 a) \<subseteq> {length h ..< length ?h2}"
    using f2 cl(3) len by fastforce
  have sl: "states b < length h" using ss by (rule at_less)
  have al: "length h \<le> a" "a < length ?h2" using fa self_in_fp(1) [of a ?h2] by auto
  have ss2: "list_at ?h2 (states b) = Some ss"
    using ss sl e02 by (simp add: list_at_def lookup_def ext_def)
  let ?h3 = "store ?h2 (states b) (RefList (ss @ [a]))"
  have h3: "list_append ?h2 (states b) a = ?h3" using ss2 by (simp add: list_append_def)
  have e3: "ext ?h2 ?h3 {states b}" by (rule ext_store)
  have bd2: "set (scene_fp ?h2 a) \<subseteq> {..<length ?h2}" using fa by auto
  have ag3: "agree ?h2 ?h3 (set (scene_fp ?h2 a))"
    using e3 bd2 by (rule ext_agree) (use fa sl in auto)
  have w3: "wf_scene ?h3 a" using w2 ag3 by (rule wf_scene_agree)
  have fp3: "scene_fp ?h3 a = scene_fp ?h2 a" using ag3 by (rule scene_agree(2))
  from wf_scene_at [OF w3] obtain s where s: "scene_at ?h3 a = Some s" by blast
  from wf_scene_parts(1) [OF w3 s] obtain cs where cs: "read_dict ?h3 (characters s) = Some cs"
    by (auto simp: wf_dict_def)
  obtain h4 d where dc: "deepcopy_dict ?h3 (characters s) = (h4, d)"
    by (cases "deepcopy_dict ?h3 (characters s)")
  note sp = deepcopy_dict_spec [OF dc cs]
  from em c h3 s dc have r: "h' = h4"
    "b' = b\<lparr> current_background := background_url s, current_label := background_label s,
             current_sprites := d \<rparr>"
    by (simp_all add: emit_def push_state_def Let_def)
  from r show st: "states b' = states b" by simp
  have cur: "current_sprites b' = d" using r by simp
  have len4: "length ?h2 \<le> length h4" using sp(1) by (auto simp: ext_def)
  have e04: "ext h h4 {states b}"
    using ext_trans [OF ext_trans [OF e02 e3] sp(1)] by simp
  have l4: "list_at h4 (states b) = Some (ss @ [a])"
  proof -
    have "lookup ?h3 (states b) = Some (RefList (ss @ [a]))"
      using sl len by (simp add: lookup_store)
    moreover have "lookup h4 (states b) = lookup ?h3 (states b)"
      using sp(1) sl len by (auto simp: ext_def lookup_def)
    ultimately show ?thesis by (simp add: list_at_def)
  qed
  have old: "agree h h4 (set (scene_fp h x))" if "x \<in> set ss" for x
    using e04 wf_scene_bounded [OF wss [OF that]] nst [OF that] by (intro ext_agree) auto
  have oldb: "set (scene_fp h x) \<subseteq> {..<length h}" if "x \<in> set ss" for x
    using wf_scene_bounded [OF wss [OF that]] .
  have ag4: "agree ?h3 h4 (set (scene_fp ?h3 a))"
    using sp(1) by (rule ext_agree) (use fp3 bd2 in auto)
  have w4: "wf_scene h4 a" using w3 ag4 by (rule wf_scene_agree)
  have fp4: "scene_fp h4 a = scene_fp ?h2 a" using scene_agree(2) [OF ag4] fp3 by simp
  have wd4: "wf_dict h4 d" using sp(2,3) by (simp add: wf_dict_def)
  have fd4: "set (dict_fp h4 d) \<subseteq> {length ?h2 ..< length h4}" using sp(4) by simp
  have nin: "a \<notin> set ss"
  proof
    assume "a \<in> set ss"
    from oldb [OF this] self_in_fp(1) [of a h] al show False by auto
  qed
  have "wf (h4, b')"
  proof (rule wfI [where ss = "ss @ [a]"])
    show "list_at h4 (states b') = Some (ss @ [a])" using l4 st by simp
    show "distinct (ss @ [a])" using dss nin by simp
    show "wf_scene h4 x" if "x \<in> set (ss @ [a])" for x
      using that w4 wss old by (auto intro: wf_scene_agree)
    show "wf_dict h4 (current_sprites b')" using wd4 cur by simp
    show "set (scene_fp h4 x) \<inter> set (scene_fp h4 y) = {}"
      if "x \<in> set (ss @ [a])" "y \<in> set (ss @ [a])" "x \<noteq> y" for x y
    proof -
      have o: "scene_fp h4 z = scene_fp h z \<and> set (scene_fp h z) \<subseteq> {..<length h}"
        if "z \<in> set ss" for z
        using scene_agree(2) [OF old [OF that]] oldb [OF that] by simp
      from that consider "x \<in> set ss" "y \<in> set ss" | "x \<in> set ss" "y = a"
        | "x = a" "y \<in> set ss" by auto
      then show ?thesis
      proof cases
        case 1
        with o sep that(3) show ?thesis by simp
      next
        case 2
        with o [of x] fp4 fa show ?thesis by fastforce
      next
        case 3
        with o [of y] fp4 fa show ?thesis by fastforce
      qed
    qed
    show "set (dict_fp h4 (current_sprites b')) \<inter> set (scene_fp h4 x) = {}"
      if "x \<in> set (ss @ [a])" for x
    proof (cases "x = a")
      case True
      with fp4 fa fd4 bd2 cur show ?thesis by fastforce
    next
      case False
      with that have "x \<in> set ss" by simp
      from scene_agree(2) [OF old [OF this]] oldb [OF this] fd4 len cur show ?thesis
        by fastforce
    qed
    show "states b' \<notin> set (dict_fp h4 (current_sprites b'))"
      using fd4 sl len cur st by fastforce
    show "states b' \<notin> set (scene_fp h4 x)" if "x \<in> set (ss @ [a])" for x
    proof (cases "x = a")
      case True
      with fp4 fa sl st show ?thesis by fastforce
    next
      case False
      with that have "x \<in> set ss" by simp
      from scene_agree(2) [OF old [OF this]] nst [OF this] st show ?thesis by simp
    qed
  qed
  with r show "wf (h', b')" by simp
  have "read_scene h4 a \<noteq> None" using w4 by (simp add: wf_scene_def)
  with l4 ss r show "\<exists>a. list_items h' (states b) = list_items h (states b) @ [a]
      \<and> read_scene h' a \<noteq> None"
    by (auto simp: list_items_def)
  show "read_scene h' x = read_scene h x" if "x \<in> set (list_items h (states b))" for x
  proof -
    from that ss have "x \<in> set ss" by (simp add: list_items_def)
    from scene_agree(3) [OF old [OF this]] r show ?thesis by simp
  qed
qed

text \<open>A change local to one scene of the list keeps the invariant and the other scenes.\<close>

lemma modify_spec:
  assumes w: "wf (h, b)" and mem: "a \<in> set (list_items h (states b))"
    and lc: "local_change h a h'"
  shows "wf (h', b)" and "list_items h' (states b) = list_items h (states b)"
    and "\<And>x. x \<in> set (list_items h (states b)) \<Longrightarrow> x \<noteq> a
           \<Longrightarrow> read_scene h' x = read_scene h x"
proof -
  from wfD [OF w] obtain ss where ss: "list_at h (states b) = Some ss" and dss: "distinct ss"
    and wss0: "\<forall>a \<in> set ss. wf_scene h a"
    and wd: "wf_dict h (current_sprites b)"
    and sep0: "\<forall>a \<in> set ss. \<forall>a' \<in> set ss. a \<noteq> a'
           \<longrightarrow> set (scene_fp h a) \<inter> set (scene_fp h a') = {}"
    and sepd0: "\<forall>a \<in> set ss. set (dict_fp h (current_sprites b)) \<inter> set (scene_fp h a) = {}"
    and nsd: "states b \<notin> set (dict_fp h (current_sprites b))"
    and nst0: "\<forall>a \<in> set ss. states b \<notin> set (scene_fp h a)"
    by blast
  note wss = wss0 [rule_format] and sep = sep0 [rule_format] and nst = nst0 [rule_format]
    and sepd = sepd0 [rule_format]
  from mem ss have a: "a \<in> set ss" by (simp add: list_items_def)
  from lc have e: "ext h h' (set (scene_fp h a))" and w': "wf_scene h' a"
    and f': "set (scene_fp h' a) \<subseteq> set (scene_fp h a) \<union> {length h ..< length h'}"
    by (simp_all add: local_change_def)
  have sl: "states b < length h" using ss by (rule at_less)
  have "lookup h' (states b) = lookup h (states b)"
    using e sl nst [OF a] by (auto simp: ext_def lookup_def)
  then have ss': "list_at h' (states b) = Some ss" using ss by (simp add: list_at_def)
  with ss show "list_items h' (states b) = list_items h (states b)"
    by (simp add: list_items_def)
  have bd: "set (scene_fp h x) \<subseteq> {..<length h}" if "x \<in> set ss" for x
    using wf_scene_bounded [OF wss [OF that]] .
  have other: "agree h h' (set (scene_fp h x))" if "x \<in> set ss" "x \<noteq> a" for x
    using e bd [OF that(1)] sep [OF that(1) a that(2)] by (rule ext_agree)
  have agd: "agree h h' (set (dict_fp h (current_sprites b)))"
    using e wf_dict_bounded [OF wd] sepd [OF a] by (rule ext_agree)
  have fpd: "dict_fp h' (current_sprites b) = dict_fp h (current_sprites b)"
    using agd by (rule dict_agree(3))
  have bdd: "set (dict_fp h (current_sprites b)) \<subseteq> {..<length h}"
    using wd by (rule wf_dict_bounded)
  have fpo: "scene_fp h' x = scene_fp h x" if "x \<in> set ss" "x \<noteq> a" for x
    using other [OF that] by (rule scene_agree(2))
  have one: "set (scene_fp h' a) \<inter> set (scene_fp h' z) = {}" if "z \<in> set ss" "z \<noteq> a" for z
  proof -
    have "set (scene_fp h a) \<inter> set (scene_fp h z) = {}" using sep [OF a that(1)] that(2) by simp
    with fpo [OF that] f' bd [OF that(1)] show ?thesis by fastforce
  qed
  show "wf (h', b)"
  proof (rule wfI [where ss = ss])
    show "list_at h' (states b) = Some ss" by (rule ss')
    show "distinct ss" by (rule dss)
    show "wf_scene h' x" if "x \<in> set ss" for x
    proof (cases "x = a")
      case True
      with w' show ?thesis by simp
    next
      case False
      from wss [OF that] other [OF that False] show ?thesis by (rule wf_scene_agree)
    qed
    show "wf_dict h' (current_sprites b)" using wd agd by (rule wf_dict_agree)
    show "set (scene_fp h' x) \<inter> set (scene_fp h' y) = {}"
      if "x \<in> set ss" "y \<in> set ss" "x \<noteq> y" for x y
    proof (cases "x = a")
      case True
      with one [of y] that show ?thesis by simp
    next
      case False
      show ?thesis
      proof (cases "y = a")
        case True
        with one [of x] that False show ?thesis by auto
      next
        case ya: False
        from fpo [OF that(1) False] fpo [OF that(2) ya] sep [OF that] show ?thesis by simp
      qed
    qed
    show "set (dict_fp h' (current_sprites b)) \<inter> set (scene_fp h' x) = {}"
      if "x \<in> set ss" for x
    proof (cases "x = a")
      case True
      with fpd f' bdd sepd [OF a] show ?thesis by fastforce
    next
      case False
      with fpd fpo [OF that False] sepd [OF that] show ?thesis by simp
    qed
    show "states b \<notin> set (dict_fp h' (current_sprites b))" using fpd nsd by simp
    show "states b \<notin> set (scene_fp h' x)" if "x \<in> set ss" for x
    proof (cases "x = a")
      case True
      with f' sl nst [OF a] show ?thesis by fastforce
    next
      case False
      with fpo [OF that False] nst [OF that] show ?thesis by simp
    qed
  qed
  show "read_scene h' x = read_scene h x"
    if "x \<in> set (list_items h (states b))" "x \<noteq> a" for x
  proof -
    from that ss have "x \<in> set ss" by (simp add: list_items_def)
    from other [OF this that(2)] show ?thesis by (rule scene_agree(3))
  qed
qed

lemma same_graph_refl: "same_graph hb hb"
  by (simp add: same_graph_def)

lemma same_graph_trans: "same_graph hb hb1 \<Longrightarrow> same_graph hb1 hb2 \<Longrightarrow> same_graph hb hb2"
  by (simp add: same_graph_def)

lemma wf_fields:
  "states b' = states b \<Longrightarrow> current_sprites b' = current_sprites b \<Longrightarrow> wf (h, b') = wf (h, b)"
  by (simp add: wf_def split: option.splits)

lemma dict_set_entries: "set (dict_set es k v) \<subseteq> insert (k, v) (set es)"
  by (induction es) (auto split: if_splits)

lemma dict_set_distinct:
  "distinct (map snd es) \<Longrightarrow> v \<notin> snd ` set es \<Longrightarrow> distinct (map snd (dict_set es k v))"
proof (induction es)
  case Nil
  then show ?case by simp
next
  case (Cons e es)
  obtain k' v' where e: "e = (k', v')" by (cases e)
  have "v' \<notin> snd ` set (dict_set es k v)"
    using dict_set_entries [of es k v] Cons.prems e by force
  with Cons e show ?case by auto
qed

text \<open>One round of the loop of \<open>set_characters\<close>.\<close>

lemma set_character_step:
  assumes w: "wf (h, b)"
  shows "wf (dict_store (h @ [Sprite c]) (current_sprites b) k (length h), b)"
    and "same_graph (h, b) (dict_store (h @ [Sprite c]) (current_sprites b) k (length h), b)"
proof -
  from wfD [OF w] obtain ss where ss: "list_at h (states b) = Some ss" and dss: "distinct ss"
    and wss0: "\<forall>a \<in> set ss. wf_scene h a"
    and wd: "wf_dict h (current_sprites b)"
    and sep0: "\<forall>a \<in> set ss. \<forall>a' \<in> set ss. a \<noteq> a'
           \<longrightarrow> set (scene_fp h a) \<inter> set (scene_fp h a') = {}"
    and sepd0: "\<forall>a \<in> set ss. set (dict_fp h (current_sprites b)) \<inter> set (scene_fp h a) = {}"
    and nsd: "states b \<notin> set (dict_fp h (current_sprites b))"
    and nst0: "\<forall>a \<in> set ss. states b \<notin> set (scene_fp h a)"
    by blast
  note wss = wss0 [rule_format] and sep = sep0 [rule_format] and nst = nst0 [rule_format]
    and sepd = sepd0 [rule_format]
  let ?d = "current_sprites b"
  let ?n = "length h"
  from wd obtain es where es: "dict_at h ?d = Some es"
    and t: "those (map (\<lambda>(k, x). map_option (Pair k) (sprite_at h x)) es) \<noteq> None"
    and dd: "distinct (dict_fp h ?d)"
    by (auto simp: wf_dict_def read_dict_def split: option.splits)
  have fpd: "dict_fp h ?d = ?d # map snd es" using es by (simp add: dict_fp_def dict_items_def)
  have dl: "?d < length h" using es by (rule at_less)
  have bdd: "set (dict_fp h ?d) \<subseteq> {..<length h}" using wd by (rule wf_dict_bounded)
  let ?es = "dict_set es k ?n"
  let ?h = "store (h @ [Sprite c]) ?d (SpriteDict ?es)"
  have d1: "dict_at (h @ [Sprite c]) ?d = Some es"
    using es dl by (simp add: dict_at_def lookup_alloc)
  have u: "dict_store (h @ [Sprite c]) ?d k ?n = ?h"
    using d1 by (simp add: dict_store_def)
  have e: "ext h ?h {?d}"
    using ext_trans [OF ext_alloc [of h "Sprite c" "{}"] ext_store [of "h @ [Sprite c]" ?d]]
    by simp
  have sl: "states b < length h" using ss by (rule at_less)
  have nd: "states b \<noteq> ?d" using nsd fpd by auto
  have "lookup ?h (states b) = lookup h (states b)"
    using e sl nd by (auto simp: ext_def lookup_def)
  then have ss': "list_at ?h (states b) = Some ss" using ss by (simp add: list_at_def)
  have bd: "set (scene_fp h x) \<subseteq> {..<length h}" if "x \<in> set ss" for x
    using wf_scene_bounded [OF wss [OF that]] .
  have dn: "?d \<notin> set (scene_fp h x)" if "x \<in> set ss" for x
    using sepd [OF that] fpd by auto
  have ag: "agree h ?h (set (scene_fp h x))" if "x \<in> set ss" for x
    using e bd [OF that] by (rule ext_agree) (use dn [OF that] in simp)
  have fpo: "scene_fp ?h x = scene_fp h x" if "x \<in> set ss" for x
    using ag [OF that] by (rule scene_agree(2))
  have da: "dict_at ?h ?d = Some ?es" using dl by (simp add: dict_at_def lookup_store)
  have fpd': "dict_fp ?h ?d = ?d # map snd ?es"
    using da by (simp add: dict_fp_def dict_items_def)
  have sub: "set (map snd ?es) \<subseteq> insert ?n (set (map snd es))"
    using dict_set_entries [of es k ?n] by force
  have nn: "?n \<notin> snd ` set es" using bdd fpd by auto
  have de: "distinct (map snd es)" and dne: "?d \<notin> set (map snd es)" using dd fpd by auto
  have dist: "distinct (dict_fp ?h ?d)"
    unfolding fpd' using dne sub dl dict_set_distinct [OF de nn, of k] by auto
  have "those (map (\<lambda>(k, x). map_option (Pair k) (sprite_at ?h x)) ?es) \<noteq> None"
    unfolding those_map_defined
  proof
    fix x assume x: "x \<in> set ?es"
    obtain k' y where xy: "x = (k', y)" by (cases x)
    from x xy dict_set_entries [of es k ?n] consider "y = ?n" | "(k', y) \<in> set es" by auto
    then have "sprite_at ?h y \<noteq> None"
    proof cases
      case 1
      then show ?thesis using dl by (simp add: sprite_at_def lookup_store lookup_alloc)
    next
      case 2
      from those_map_definedD [OF t 2] have "sprite_at h y \<noteq> None" by auto
      moreover have ym: "y \<in> set (map snd es)" using 2 by force
      have "y \<noteq> ?d" using ym dne by blast
      moreover have "y < length h" using ym bdd unfolding fpd by auto
      ultimately show ?thesis by (simp add: sprite_at_def lookup_store lookup_alloc)
    qed
    with xy show "(case x of (k, x) \<Rightarrow> map_option (Pair k) (sprite_at ?h x)) \<noteq> None"
      by simp
  qed
  with da have rd: "read_dict ?h ?d \<noteq> None" by (simp add: read_dict_def)
  have fsub: "set (dict_fp ?h ?d) \<subseteq> insert ?n (set (dict_fp h ?d))"
    using fpd fpd' sub by auto
  have "wf (?h, b)"
  proof (rule wfI [where ss = ss])
    show "list_at ?h (states b) = Some ss" by (rule ss')
    show "distinct ss" by (rule dss)
    show "wf_scene ?h x" if "x \<in> set ss" for x
      using wss [OF that] ag [OF that] by (rule wf_scene_agree)
    show "wf_dict ?h ?d" using rd dist by (simp add: wf_dict_def)
    show "set (scene_fp ?h x) \<inter> set (scene_fp ?h y) = {}"
      if "x \<in> set ss" "y \<in> set ss" "x \<noteq> y" for x y
      using fpo [OF that(1)] fpo [OF that(2)] sep [OF that] by simp
    show "set (dict_fp ?h ?d) \<inter> set (scene_fp ?h x) = {}" if "x \<in> set ss" for x
      using fsub fpo [OF that] sepd [OF that] bd [OF that] by fastforce
    show "states b \<notin> set (dict_fp ?h ?d)" using fsub nsd sl by fastforce
    show "states b \<notin> set (scene_fp ?h x)" if "x \<in> set ss" for x
      using fpo [OF that] nst [OF that] by simp
  qed
  with u show "wf (dict_store (h @ [Sprite c]) ?d k ?n, b)" by simp
  have "same_graph (h, b) (?h, b)"
    using ss ss' ag by (auto simp: same_graph_def list_items_def scene_agree(3))
  with u show "same_graph (h, b) (dict_store (h @ [Sprite c]) ?d k ?n, b)" by simp
qed

lemma set_characters_spec:
  "wf hb \<Longrightarrow> wf (set_characters chars hb) \<and> same_graph hb (set_characters chars hb)"
proof (induction chars arbitrary: hb)
  case Nil
  then show ?case by (simp add: set_characters_def same_graph_refl)
next
  case (Cons ch chars)
  obtain h b where hb: "hb = (h, b)" by (cases hb)
  let ?c = "\<lparr> sprite_name = def_name ch, image_url = def_image_url ch, position = ''center'',
             visible = False, animation = (if animated ch then ''idle'' else ''''), scale = 1 \<rparr>"
  let ?h = "dict_store (h @ [Sprite ?c]) (current_sprites b) (def_name ch) (length h)"
  let ?b = "b\<lparr>character_defs := dict_set (character_defs b) (def_name ch) ch\<rparr>"
  have step: "set_characters (ch # chars) hb = set_characters chars (?h, ?b)"
    using hb by (simp add: set_characters_def alloc_def)
  from Cons.prems hb have w: "wf (h, b)" by simp
  from set_character_step [OF w, of ?c "def_name ch"]
  have w1: "wf (?h, b)" and g1: "same_graph (h, b) (?h, b)" by simp_all
  have w2: "wf (?h, ?b)" using w1 wf_fields [of ?b b ?h] by simp
  have g2: "same_graph (h, b) (?h, ?b)" using g1 by (simp add: same_graph_def)
  from Cons.IH [OF w2] have "wf (set_characters chars (?h, ?b))"
    and "same_graph (?h, ?b) (set_characters chars (?h, ?b))" by simp_all
  with g2 step hb show ?case by (auto intro: same_graph_trans)
qed

lemma wf_new_builder: "wf new_builder"
proof -
  have nb: "new_builder = ([RefList [], SpriteDict []],
      \<lparr> states = 0, character_defs = [],
        current_background = DEFAULT_BACKGROUND, current_label = '''',
        current_sprites = 1,
        current_show_camera = False, current_show_voice = False,
        current_show_motors = False, current_show_robot = False,
        current_background_blur = 0, current_stage = '''', current_stage_blur = 0,
        current_path = None \<rparr>)"
    by (simp add: new_builder_def alloc_def)
  show ?thesis
    unfolding nb
    by (rule wfI [where ss = "[]"])
      (simp_all add: list_at_def dict_at_def lookup_def wf_dict_def read_dict_def dict_fp_def
        dict_items_def)
qed

subsection \<open>Every call keeps the invariant\<close>

lemma local_then_note:
  assumes "local_change h a h1"
  shows "local_change h a (set_note n h1 a)"
proof -
  from assms have "wf_scene h1 a" by (simp add: local_change_def)
  then have "local_change h1 a (set_note n h1 a)" by (rule local_set_note)
  with assms show ?thesis by (rule local_change_trans)
qed

lemma emit_emitted:
  assumes "wf hb" and "\<And>h a. wf_scene h a \<Longrightarrow> local_change h a (change h a)"
  shows "wf (emit change hb) \<and> emitted hb (emit change hb)"
proof -
  obtain h b where hb: "hb = (h, b)" by (cases hb)
  obtain h' b' where r: "emit change (h, b) = (h', b')" by (cases "emit change (h, b)")
  from assms(1) hb have w: "wf (h, b)" by simp
  note sp = emit_spec [OF w assms(2) r]
  from sp(2,3,4) have "emitted (h, b) (h', b')" by (simp add: emitted_def)
  with sp(1) hb r show ?thesis by simp
qed

lemma exec_emits:
  assumes e: "emits c" and w: "wf hb"
  shows "wf (exec c hb) \<and> emitted hb (exec c hb)"
proof (cases c)
  case (SetBackground url label)
  have "wf (set_background url label hb) \<and> emitted hb (set_background url label hb)"
    unfolding set_background_def using w by (rule emit_emitted) (rule local_update_scene; simp)
  with SetBackground show ?thesis by simp
next
  case (ShowCharacter nm pos)
  have "wf (show_character nm pos hb) \<and> emitted hb (show_character nm pos hb)"
    unfolding show_character_def using w
    by (rule emit_emitted) (rule local_then_note, rule local_with_character)
  with ShowCharacter show ?thesis by simp
next
  case (HideCharacter nm)
  have "wf (hide_character nm hb) \<and> emitted hb (hide_character nm hb)"
    unfolding hide_character_def using w
    by (rule emit_emitted) (rule local_then_note, rule local_with_character)
  with HideCharacter show ?thesis by simp
next
  case (MoveCharacter nm pos)
  have "wf (move_character nm pos hb) \<and> emitted hb (move_character nm pos hb)"
    unfolding move_character_def using w
    by (rule emit_emitted) (rule local_then_note, rule local_with_character)
  with MoveCharacter show ?thesis by simp
next
  case (ChangeCharacterSprite nm url)
  have "wf (change_character_sprite nm url hb) \<and> emitted hb (change_character_sprite nm url hb)"
    unfolding change_character_sprite_def using w
    by (rule emit_emitted) (rule local_then_note, rule local_with_character)
  with ChangeCharacterSprite show ?thesis by simp
next
  case (SetCharacterAnimation nm anim)
  have "wf (set_character_animation nm anim hb) \<and> emitted hb (set_character_animation nm anim hb)"
    unfolding set_character_animation_def using w
    by (rule emit_emitted) (rule local_then_note, rule local_with_character)
  with SetCharacterAnimation show ?thesis by simp
next
  case (SetCharacterScale nm sc)
  have "wf (set_character_scale nm sc hb) \<and> emitted hb (set_character_scale nm sc hb)"
    unfolding set_character_scale_def using w
    by (rule emit_emitted) (rule local_then_note, rule local_with_character)
  with SetCharacterScale show ?thesis by simp
next
  case (Dialogue spk tx)
  have "wf (dialogue spk tx hb) \<and> emitted hb (dialogue spk tx hb)"
    unfolding dialogue_def using w by (rule emit_emitted) (rule local_update_scene; simp)
  with Dialogue show ?thesis by simp
next
  case (Narration tx)
  have "wf (narration tx hb) \<and> emitted hb (narration tx hb)"
    unfolding narration_def using w by (rule emit_emitted) (rule local_update_scene; simp)
  with Narration show ?thesis by simp
next
  case (RequestInput prm var)
  have "wf (request_input prm var hb) \<and> emitted hb (request_input prm var hb)"
    unfolding request_input_def using w by (rule emit_emitted) (rule local_new_input)
  with RequestInput show ?thesis by simp
next
  case (SendMotorCommand mid pos)
  have "wf (send_motor_command mid pos hb) \<and> emitted hb (send_motor_command mid pos hb)"
    unfolding send_motor_command_def using w
    by (rule emit_emitted) (rule local_then_note, rule local_append_motor)
  with SendMotorCommand show ?thesis by simp
next
  case (SendMotorCommands cmds)
  have "wf (send_motor_commands cmds hb) \<and> emitted hb (send_motor_commands cmds hb)"
    unfolding send_motor_commands_def using w
    by (rule emit_emitted) (rule local_then_note, rule local_append_motors)
  with SendMotorCommands show ?thesis by simp
next
  case (SendRobotPose pose)
  have "wf (send_robot_pose pose hb) \<and> emitted hb (send_robot_pose pose hb)"
    unfolding send_robot_pose_def using w by (rule emit_emitted) (rule local_new_pose)
  with SendRobotPose show ?thesis by simp
next
  case (PlaySound fl)
  have "wf (play_sound fl hb) \<and> emitted hb (play_sound fl hb)"
    unfolding play_sound_def using w by (rule emit_emitted) (rule local_update_scene; simp)
  with PlaySound show ?thesis by simp
qed (use e in simp_all)

lemma exec_sets_template:
  assumes t: "sets_template c" and w: "wf hb"
  shows "wf (exec c hb) \<and> same_graph hb (exec c hb)"
proof -
  obtain h b where hb: "hb = (h, b)" by (cases hb)
  from w hb have w': "wf (h, b)" by simp
  have fld: "wf (h, b') \<and> same_graph (h, b) (h, b')"
    if "states b' = states b" "current_sprites b' = current_sprites b" for b'
    using that w' wf_fields [OF that, of h] by (simp add: same_graph_def)
  show ?thesis
  proof (cases c)
    case (SetCharacters chars)
    with set_characters_spec [OF w, of chars] show ?thesis by simp
  next
    case (SetCamera v)
    with hb fld [of "b\<lparr>current_show_camera := v\<rparr>"] show ?thesis by simp
  next
    case (SetVoice v)
    with hb fld [of "b\<lparr>current_show_voice := v\<rparr>"] show ?thesis by simp
  next
    case (SetMotors v)
    with hb fld [of "b\<lparr>current_show_motors := v\<rparr>"] show ?thesis by simp
  next
    case (SetRobot v)
    with hb fld [of "b\<lparr>current_show_robot := v\<rparr>"] show ?thesis by simp
  next
    case (SetBackgroundBlur n)
    with hb fld [of "b\<lparr>current_background_blur := n\<rparr>"] show ?thesis by simp
  next
    case (SetStage url)
    with hb fld [of "b\<lparr>current_stage := url\<rparr>"] show ?thesis by simp
  next
    case (SetStageBlur n)
    with hb fld [of "b\<lparr>current_stage_blur := n\<rparr>"] show ?thesis by simp
  next
    case (SetPath p)
    with hb fld [of "b\<lparr>current_path := p\<rparr>"] show ?thesis by simp
  qed (use t in simp_all)
qed

lemma add_choice_spec:
  assumes w: "wf (h, b)" and ne: "list_items h (states b) \<noteq> []"
    and v: "read_scene h (last (list_items h (states b))) = Some v"
  shows "\<exists>h'. add_choice txt nxt (h, b) = (h', b) \<and> wf (h', b)
    \<and> list_items h' (states b) = list_items h (states b)
    \<and> (\<forall>x \<in> set (list_items h (states b)). x \<noteq> last (list_items h (states b))
          \<longrightarrow> read_scene h' x = read_scene h x)
    \<and> read_scene h' (last (list_items h (states b)))
        = Some (v\<lparr>choices := Some (choices_of v
                                    @ [\<lparr>choice_text = txt, next_scene_index = nxt\<rparr>])\<rparr>)"
proof -
  let ?ss = "list_items h (states b)"
  let ?a = "last ?ss"
  let ?h = "add_choice_to txt nxt h ?a"
  have mem: "?a \<in> set ?ss" using ne by simp
  from wfD [OF w] mem have wa: "wf_scene h ?a" by (auto simp: list_items_def)
  note sp = add_choice_to_spec [OF wa v, of "txt" "nxt"]
  note m = modify_spec [OF w mem sp(1)]
  have "add_choice txt nxt (h, b) = (?h, b)" using ne by (simp add: add_choice_def Let_def)
  with m sp(2) show ?thesis by (auto simp: choices_of_def)
qed

lemma exec_wf: "wf hb \<Longrightarrow> wf (exec c hb)"
proof -
  assume w: "wf hb"
  obtain h b where hb: "hb = (h, b)" by (cases hb)
  consider "sets_template c" | "emits c" | tx nx where "c = AddChoice tx nx"
    by (cases c) simp_all
  then show ?thesis
  proof cases
    case 1
    with w exec_sets_template show ?thesis by blast
  next
    case 2
    with w exec_emits show ?thesis by blast
  next
    case 3
    show ?thesis
    proof (cases "list_items h (states b) = []")
      case True
      with 3 hb w show ?thesis by (simp add: add_choice_def)
    next
      case False
      from w hb have w': "wf (h, b)" by simp
      from wfD [OF w'] False have "wf_scene h (last (list_items h (states b)))"
        by (auto simp: list_items_def)
      then obtain v where "read_scene h (last (list_items h (states b))) = Some v"
        by (auto simp: wf_scene_def)
      from add_choice_spec [OF w' False this, of tx nx] 3 hb show ?thesis by auto
    qed
  qed
qed

lemma run_snoc: "run (cmds @ [c]) = exec c (run cmds)"
  by (simp add: run_def)

lemma run_wf: "wf (run cmds)"
proof (induction cmds rule: rev_induct)
  case Nil
  show ?case by (simp add: run_def wf_new_builder)
next
  case (snoc c cmds)
  then show ?case by (simp add: run_snoc exec_wf)
qed

subsection \<open>The graph that \<open>build\<close> returns\<close>

lemma those_map_last:
  assumes "xs \<noteq> []"
  shows "those (map f xs)
     = (case those (map f (butlast xs)) of
          None \<Rightarrow> None
        | Some vs \<Rightarrow> (case f (last xs) of None \<Rightarrow> None | Some v \<Rightarrow> Some (vs @ [v])))"
  using those_map_snoc [of f "butlast xs" "last xs"] assms by simp

lemma wf_graph:
  assumes "wf (h, b)"
  shows "\<exists>ss g. list_at h (states b) = Some ss \<and> distinct ss
           \<and> read_graph h (states b) = Some g \<and> those (map (read_scene h) ss) = Some g"
proof -
  from wfD [OF assms] obtain ss where ss: "list_at h (states b) = Some ss"
    and d: "distinct ss" and w: "\<forall>a \<in> set ss. wf_scene h a"
    by blast
  have "those (map (read_scene h) ss) \<noteq> None"
    unfolding those_map_defined using w by (simp add: wf_scene_def)
  then obtain g where g: "those (map (read_scene h) ss) = Some g" by auto
  with ss d show ?thesis by (simp add: read_graph_def read_list_def)
qed

lemma graph_same:
  assumes w: "wf hb" and w': "wf hb'" and s: "same_graph hb hb'"
  shows "read_graph (fst hb') (states (snd hb)) = read_graph (fst hb) (states (snd hb))"
proof -
  obtain h b where hb: "hb = (h, b)" by (cases hb)
  obtain h' b' where hb': "hb' = (h', b')" by (cases hb')
  from w hb wf_graph [of h b] obtain ss where ss: "list_at h (states b) = Some ss" by auto
  from w' hb' wf_graph [of h' b'] obtain ss' where ss': "list_at h' (states b') = Some ss'"
    by auto
  from s hb hb' have st: "states b' = states b"
    and li: "list_items h' (states b) = list_items h (states b)"
    and rd: "\<And>x. x \<in> set (list_items h (states b)) \<Longrightarrow> read_scene h' x = read_scene h x"
    by (simp_all add: same_graph_def)
  from li ss ss' st have e: "ss' = ss" by (simp add: list_items_def)
  have "those (map (read_scene h') ss) = those (map (read_scene h) ss)"
    by (rule those_map_cong) (use rd ss in \<open>simp add: list_items_def\<close>)
  with ss ss' st e hb hb' show ?thesis by (simp add: read_graph_def read_list_def)
qed

lemma graph_emitted:
  assumes w: "wf hb" and w': "wf hb'" and s: "emitted hb hb'"
  shows "\<exists>v. read_graph (fst hb') (states (snd hb))
               = map_option (\<lambda>g. g @ [v]) (read_graph (fst hb) (states (snd hb)))"
proof -
  obtain h b where hb: "hb = (h, b)" by (cases hb)
  obtain h' b' where hb': "hb' = (h', b')" by (cases hb')
  from w hb wf_graph [of h b] obtain ss g where ss: "list_at h (states b) = Some ss"
    and g: "those (map (read_scene h) ss) = Some g"
    by auto
  from w' hb' wf_graph [of h' b'] obtain ss' where ss': "list_at h' (states b') = Some ss'"
    by auto
  from s hb hb' obtain a where st: "states b' = states b"
    and li: "list_items h' (states b) = list_items h (states b) @ [a]"
    and ra: "read_scene h' a \<noteq> None"
    and rd: "\<And>x. x \<in> set (list_items h (states b)) \<Longrightarrow> read_scene h' x = read_scene h x"
    by (auto simp: emitted_def)
  from li ss ss' st have e: "ss' = ss @ [a]" by (simp add: list_items_def)
  from ra obtain v where v: "read_scene h' a = Some v" by auto
  have "those (map (read_scene h') ss) = those (map (read_scene h) ss)"
    by (rule those_map_cong) (use rd ss in \<open>simp add: list_items_def\<close>)
  with g have c: "those (map (read_scene h') ss) = Some g" by simp
  have "those (map (read_scene h') (ss @ [a])) = Some (g @ [v])"
    unfolding those_map_snoc c v by simp
  with ss' st e have "read_graph h' (states b) = Some (g @ [v])"
    by (simp add: read_graph_def read_list_def)
  moreover from ss g have "read_graph h (states b) = Some g"
    by (simp add: read_graph_def read_list_def)
  ultimately show ?thesis using hb hb' by auto
qed

lemma graph_add_choice:
  assumes w: "wf (h, b)" and g: "read_graph h (states b) = Some g"
  shows "wf (add_choice t n (h, b)) \<and> snd (add_choice t n (h, b)) = b
     \<and> read_graph (fst (add_choice t n (h, b))) (states b)
         = Some (if g = [] then []
                 else butlast g
                        @ [(last g)\<lparr>choices :=
                             Some (choices_of (last g)
                                   @ [\<lparr>choice_text = t, next_scene_index = n\<rparr>])\<rparr>])"
proof -
  from wf_graph [OF w] g obtain ss where ss: "list_at h (states b) = Some ss"
    and d: "distinct ss" and t: "those (map (read_scene h) ss) = Some g"
    by auto
  have li: "list_items h (states b) = ss" using ss by (simp add: list_items_def)
  show ?thesis
  proof (cases "ss = []")
    case True
    with t have "g = []" by simp
    with True li w g show ?thesis by (simp add: add_choice_def)
  next
    case False
    let ?a = "last ss"
    from t those_map_last [OF False, of "read_scene h"]
    obtain vs v where vs: "those (map (read_scene h) (butlast ss)) = Some vs"
      and v: "read_scene h ?a = Some v" and gv: "g = vs @ [v]"
      by (auto split: option.splits)
    have ne: "list_items h (states b) \<noteq> []" using li False by simp
    have v': "read_scene h (last (list_items h (states b))) = Some v" using li v by simp
    let ?v = "v\<lparr>choices := Some (choices_of v @ [\<lparr>choice_text = t, next_scene_index = n\<rparr>])\<rparr>"
    from add_choice_spec [OF w ne v', of t n] li
    obtain h' where ac: "add_choice t n (h, b) = (h', b)" and w': "wf (h', b)"
      and li': "list_items h' (states b) = ss"
      and rd: "\<And>x. x \<in> set ss \<Longrightarrow> x \<noteq> ?a \<Longrightarrow> read_scene h' x = read_scene h x"
      and rl: "read_scene h' ?a = Some ?v"
      by auto
    from wf_graph [OF w'] li' have ss': "list_at h' (states b) = Some ss"
      by (auto simp: list_items_def)
    have "distinct (butlast ss @ [?a])" using d False by simp
    then have nl: "?a \<notin> set (butlast ss)" unfolding distinct_append by simp
    have "those (map (read_scene h') (butlast ss)) = those (map (read_scene h) (butlast ss))"
    proof (rule those_map_cong)
      fix x assume x: "x \<in> set (butlast ss)"
      then have "x \<in> set ss" by (rule in_set_butlastD)
      moreover from x nl have "x \<noteq> ?a" by blast
      ultimately show "read_scene h' x = read_scene h x" by (rule rd)
    qed
    with vs have c: "those (map (read_scene h') (butlast ss)) = Some vs" by simp
    have "those (map (read_scene h') ss) = Some (vs @ [?v])"
      using those_map_last [OF False, of "read_scene h'"] c rl by simp
    with ss' have "read_graph h' (states b) = Some (vs @ [?v])"
      by (simp add: read_graph_def read_list_def)
    with ac w' gv show ?thesis by simp
  qed
qed

lemma store_frame:
  assumes w: "wf (h, b)" and a: "a \<in> set (list_items h (states b))"
    and x: "x \<in> set (scene_fp h a)"
  shows "\<And>a'. a' \<in> set (list_items h (states b)) \<Longrightarrow> a' \<noteq> a
            \<Longrightarrow> read_scene (store h x ob) a' = read_scene h a' \<and> read_scene h a' \<noteq> None"
    and "read_dict (store h x ob) (current_sprites b) = read_dict h (current_sprites b)"
    and "read_dict h (current_sprites b) \<noteq> None"
    and "list_items (store h x ob) (states b) = list_items h (states b)"
proof -
  from wfD [OF w] obtain ss where ss: "list_at h (states b) = Some ss"
    and wss0: "\<forall>a \<in> set ss. wf_scene h a"
    and wd: "wf_dict h (current_sprites b)"
    and sep0: "\<forall>a \<in> set ss. \<forall>a' \<in> set ss. a \<noteq> a'
           \<longrightarrow> set (scene_fp h a) \<inter> set (scene_fp h a') = {}"
    and sepd0: "\<forall>a \<in> set ss. set (dict_fp h (current_sprites b)) \<inter> set (scene_fp h a) = {}"
    and nst0: "\<forall>a \<in> set ss. states b \<notin> set (scene_fp h a)"
    by blast
  note wss = wss0 [rule_format] and sep = sep0 [rule_format] and nst = nst0 [rule_format]
    and sepd = sepd0 [rule_format]
  have li: "list_items h (states b) = ss" using ss by (simp add: list_items_def)
  from a li have am: "a \<in> set ss" by simp
  note e = ext_store [of h x ob]
  show "read_scene (store h x ob) a' = read_scene h a' \<and> read_scene h a' \<noteq> None"
    if "a' \<in> set (list_items h (states b))" "a' \<noteq> a" for a'
  proof -
    from that li have m: "a' \<in> set ss" by simp
    from sep [OF am m] that(2) x have nx: "x \<notin> set (scene_fp h a')" by auto
    have "agree h (store h x ob) (set (scene_fp h a'))"
      using e wf_scene_bounded [OF wss [OF m]] by (rule ext_agree) (use nx in simp)
    then have "read_scene (store h x ob) a' = read_scene h a'" by (rule scene_agree(3))
    moreover from wss [OF m] have "read_scene h a' \<noteq> None" by (simp add: wf_scene_def)
    ultimately show ?thesis by simp
  qed
  from sepd [OF am] x have nd: "x \<notin> set (dict_fp h (current_sprites b))" by auto
  have "agree h (store h x ob) (set (dict_fp h (current_sprites b)))"
    using e wf_dict_bounded [OF wd] by (rule ext_agree) (use nd in simp)
  then show "read_dict (store h x ob) (current_sprites b) = read_dict h (current_sprites b)"
    by (rule dict_agree(4))
  from wd show "read_dict h (current_sprites b) \<noteq> None" by (simp add: wf_dict_def)
  from nst [OF am] x have "x \<noteq> states b" by auto
  then have "lookup (store h x ob) (states b) = lookup h (states b)"
    by (simp add: lookup_def store_def)
  then show "list_items (store h x ob) (states b) = list_items h (states b)"
    by (simp add: list_items_def list_at_def)
qed

subsection \<open>A choice before the first scene\<close>

text \<open>
  C10. \<open>add_choice\<close> on a Builder whose scene list is empty does nothing: it returns
  (the model has no error to return, as the source has no \<open>raise\<close>), and the store and
  the Builder's fields are what they were, so no scene is emitted and the scene list and
  the running state are unchanged.
\<close>

theorem add_choice_without_scene:
  assumes "list_items h (states b) = []"
  shows "exec (AddChoice t n) (h, b) = (h, b)"
  using assms by (simp add: add_choice_def)

theorem add_choice_without_scene_witness:
  "list_items (fst new_builder) (states (snd new_builder)) = []
   \<and> exec (AddChoice ''go'' 1) new_builder = new_builder"
proof -
  have e: "list_items (fst new_builder) (states (snd new_builder)) = []"
    by (simp add: new_builder_def alloc_def list_items_def list_at_def lookup_def)
  from add_choice_without_scene [OF e, of "''go''" 1] e show ?thesis by simp
qed

subsection \<open>\<open>build\<close> checks nothing\<close>

text \<open>
  C1 as stated fails: \<open>build\<close> returns \<open>self._states\<close> and nothing else; the source has
  no \<open>BrokenReferenceError\<close> and no check of a target anywhere.  After one narration
  and \<open>add_choice("go", 5)\<close>, \<open>build\<close> returns a graph of one scene whose choice
  targets index 5.
\<close>

theorem build_unchecked_counterexample:
  "map_option valid_targets
     (read_graph (fst (run bad_choice_script)) (build (snd (run bad_choice_script))))
   = Some False"
  by code_simp

text \<open>
  C1, amended. For every script of Builder calls, \<open>build\<close> returns the scene list as
  it stands (it cannot fail), and the list reads as a graph.  An \<open>add_choice(t, n)\<close>
  made last leaves in the returned graph the choice \<open>(t, n)\<close> at the end of the
  choices of the last scene, whatever \<open>n\<close> is, and nothing else changed; with no scene
  the graph stays empty.
\<close>

theorem build_returns_unchecked:
  "\<exists>g. read_graph (fst (run cmds)) (build (snd (run cmds))) = Some g
     \<and> read_graph (fst (run (cmds @ [AddChoice t n])))
           (build (snd (run (cmds @ [AddChoice t n]))))
         = Some (if g = [] then []
                 else butlast g
                        @ [(last g)\<lparr>choices :=
                             Some (choices_of (last g)
                                   @ [\<lparr>choice_text = t, next_scene_index = n\<rparr>])\<rparr>])"
proof -
  obtain h b where r: "run cmds = (h, b)" by (cases "run cmds")
  from run_wf [of cmds] r have w: "wf (h, b)" by simp
  from wf_graph [OF w] obtain g where g: "read_graph h (states b) = Some g" by blast
  from graph_add_choice [OF w g, of t n] r g show ?thesis
    by (simp add: run_snoc build_def)
qed

theorem build_returns_unchecked_witness:
  "map_option (\<lambda>g. map choices g)
     (read_graph (fst (run (one_scene_script @ [AddChoice ''go'' 5])))
        (build (snd (run (one_scene_script @ [AddChoice ''go'' 5])))))
   = Some [Some [\<lparr>choice_text = ''go'', next_scene_index = 5\<rparr>]]"
proof -
  from build_returns_unchecked [of one_scene_script "''go''" 5]
  obtain g where g: "read_graph (fst (run one_scene_script)) (build (snd (run one_scene_script)))
                       = Some g"
    and a: "read_graph (fst (run (one_scene_script @ [AddChoice ''go'' 5])))
              (build (snd (run (one_scene_script @ [AddChoice ''go'' 5]))))
            = Some (if g = [] then []
                    else butlast g
                           @ [(last g)\<lparr>choices :=
                                Some (choices_of (last g)
                                      @ [\<lparr>choice_text = ''go'', next_scene_index = 5\<rparr>])\<rparr>])"
    by blast
  have "map_option (\<lambda>g. (length g, map choices g))
          (read_graph (fst (run one_scene_script)) (build (snd (run one_scene_script))))
        = Some (1, [None])"
    by code_simp
  with g have l: "length g = 1" and c: "map choices g = [None]" by simp_all
  from l obtain s where s: "g = [s]" by (cases g) auto
  with c have "choices_of s = []" by (simp add: choices_of_def)
  with a s show ?thesis by simp
qed

subsection \<open>\<open>build\<close> returns the list itself\<close>

text \<open>
  C3 as stated fails: \<open>build\<close> returns the Builder's own list, so a scene emitted
  after \<open>build\<close> is found in the graph returned before.  After one narration the
  returned graph has one scene; after a second narration the same reference reads as
  two scenes.
\<close>

theorem build_shares_list_counterexample:
  "map_option length
     (read_graph (fst (run one_scene_script)) (build (snd (run one_scene_script))))
   = Some 1
   \<and> map_option length
       (read_graph (fst (exec (Narration ''b'') (run one_scene_script)))
          (build (snd (run one_scene_script))))
     = Some 2"
  by code_simp

text \<open>
  C3, amended. Let \<open>build\<close> have returned the graph \<open>g\<close> after some script, and let
  one more Builder call \<open>c\<close> be made.  If \<open>c\<close> only sets a field of the running state,
  \<open>g\<close> reads as before.  If \<open>c\<close> emits a scene, \<open>g\<close> reads as before with that scene
  added at its end.  If \<open>c\<close> is \<open>add_choice(t, n)\<close>, \<open>g\<close> reads as before but for its
  last scene, which has the choice \<open>(t, n)\<close> added at the end of its choices.  In every
  case the scenes that were in \<open>g\<close>, the last one under \<open>add_choice\<close> apart, keep
  their values.
\<close>

theorem mutation_after_build:
  "read_graph (fst (run cmds)) (build (snd (run cmds))) \<noteq> None
   \<and> (sets_template c \<longrightarrow>
        read_graph (fst (exec c (run cmds))) (build (snd (run cmds)))
          = read_graph (fst (run cmds)) (build (snd (run cmds))))
   \<and> (emits c \<longrightarrow>
        (\<exists>s. read_graph (fst (exec c (run cmds))) (build (snd (run cmds)))
               = map_option (\<lambda>g. g @ [s])
                   (read_graph (fst (run cmds)) (build (snd (run cmds))))))
   \<and> (c = AddChoice t n \<longrightarrow>
        read_graph (fst (exec c (run cmds))) (build (snd (run cmds)))
          = map_option
              (\<lambda>g. if g = [] then []
                    else butlast g
                           @ [(last g)\<lparr>choices :=
                                Some (choices_of (last g)
                                      @ [\<lparr>choice_text = t, next_scene_index = n\<rparr>])\<rparr>])
              (read_graph (fst (run cmds)) (build (snd (run cmds)))))"
proof -
  obtain h b where r: "run cmds = (h, b)" by (cases "run cmds")
  from run_wf [of cmds] r have w: "wf (h, b)" by simp
  from wf_graph [OF w] obtain g where g: "read_graph h (states b) = Some g" by blast
  have w': "wf (exec c (h, b))" using w by (rule exec_wf)
  have 1: "read_graph (fst (exec c (h, b))) (states b) = read_graph h (states b)"
    if "sets_template c"
    using graph_same [OF w w'] exec_sets_template [OF that w] by simp
  have 2: "\<exists>s. read_graph (fst (exec c (h, b))) (states b)
                 = map_option (\<lambda>g. g @ [s]) (read_graph h (states b))"
    if "emits c"
    using graph_emitted [OF w w'] exec_emits [OF that w] by simp
  have 3: "read_graph (fst (exec c (h, b))) (states b)
          = map_option
              (\<lambda>g. if g = [] then []
                    else butlast g
                           @ [(last g)\<lparr>choices :=
                                Some (choices_of (last g)
                                      @ [\<lparr>choice_text = t, next_scene_index = n\<rparr>])\<rparr>])
              (read_graph h (states b))"
    if "c = AddChoice t n"
    using graph_add_choice [OF w g, of t n] that g by simp
  from g 1 2 3 r show ?thesis by (simp add: build_def)
qed

theorem mutation_after_build_witness:
  "sets_template (SetCamera True) \<and> emits (Narration ''b'')
   \<and> read_graph (fst (run one_scene_script)) (build (snd (run one_scene_script))) \<noteq> None
   \<and> read_graph (fst (exec (SetCamera True) (run one_scene_script)))
         (build (snd (run one_scene_script)))
       = read_graph (fst (run one_scene_script)) (build (snd (run one_scene_script)))
   \<and> (\<exists>s. read_graph (fst (exec (Narration ''b'') (run one_scene_script)))
             (build (snd (run one_scene_script)))
           = map_option (\<lambda>g. g @ [s])
               (read_graph (fst (run one_scene_script)) (build (snd (run one_scene_script)))))
   \<and> read_graph (fst (exec (AddChoice ''go'' 0) (run one_scene_script)))
         (build (snd (run one_scene_script)))
       = map_option
           (\<lambda>g. if g = [] then []
                 else butlast g
                        @ [(last g)\<lparr>choices :=
                             Some (choices_of (last g)
                                   @ [\<lparr>choice_text = ''go'', next_scene_index = 0\<rparr>])\<rparr>])
           (read_graph (fst (run one_scene_script)) (build (snd (run one_scene_script))))"
proof -
  have a: "sets_template (SetCamera True)" and b: "emits (Narration ''b'')" by simp_all
  note m1 = mutation_after_build [where c = "SetCamera True" and cmds = one_scene_script]
  note m2 = mutation_after_build [where c = "Narration ''b''" and cmds = one_scene_script]
  note m3 = mutation_after_build [where c = "AddChoice ''go'' 0" and cmds = one_scene_script
      and t = "''go''" and n = 0]
  from m1 a have 1: "read_graph (fst (run one_scene_script)) (build (snd (run one_scene_script)))
      \<noteq> None"
    and 2: "read_graph (fst (exec (SetCamera True) (run one_scene_script)))
         (build (snd (run one_scene_script)))
       = read_graph (fst (run one_scene_script)) (build (snd (run one_scene_script)))"
    by blast+
  from m2 b have 3: "\<exists>s. read_graph (fst (exec (Narration ''b'') (run one_scene_script)))
             (build (snd (run one_scene_script)))
           = map_option (\<lambda>g. g @ [s])
               (read_graph (fst (run one_scene_script)) (build (snd (run one_scene_script))))"
    by blast
  from m3 have 4: "read_graph (fst (exec (AddChoice ''go'' 0) (run one_scene_script)))
         (build (snd (run one_scene_script)))
       = map_option
           (\<lambda>g. if g = [] then []
                 else butlast g
                        @ [(last g)\<lparr>choices :=
                             Some (choices_of (last g)
                                   @ [\<lparr>choice_text = ''go'', next_scene_index = 0\<rparr>])\<rparr>])
           (read_graph (fst (run one_scene_script)) (build (snd (run one_scene_script))))"
    by blast
  from a b 1 2 3 4 show ?thesis by blast
qed

subsection \<open>Emitted scenes share nothing\<close>

text \<open>
  C2. After any script of Builder calls, take two different scenes of the scene list
  and any object \<open>x\<close> of the first one: the scene object itself, its sprite dict, one
  of its sprites, its choice list, one of its choices, its input request, its motor
  list, one of its motor commands or its robot pose.  Whatever is written over \<open>x\<close>,
  the second scene reads as before, the running sprite dict of the Builder reads as
  before, and the scene list holds the same scenes.  (The other fields of the running
  state are values, not objects in the store.)
\<close>

theorem snapshots_share_nothing:
  assumes "run cmds = (h, b)"
    and "i < length (list_items h (build b))" and "j < length (list_items h (build b))"
    and "i \<noteq> j"
    and "x \<in> set (scene_fp h (list_items h (build b) ! i))"
  shows "read_scene (store h x ob) (list_items h (build b) ! j)
           = read_scene h (list_items h (build b) ! j)
       \<and> read_scene h (list_items h (build b) ! j) \<noteq> None
       \<and> read_dict (store h x ob) (current_sprites b) = read_dict h (current_sprites b)
       \<and> read_dict h (current_sprites b) \<noteq> None
       \<and> list_items (store h x ob) (build b) = list_items h (build b)"
proof -
  let ?ss = "list_items h (states b)"
  from run_wf [of cmds] assms(1) have w: "wf (h, b)" by simp
  from wf_graph [OF w] have d: "distinct ?ss" by (auto simp: list_items_def)
  from assms(2,3) have mi: "?ss ! i \<in> set ?ss" and mj: "?ss ! j \<in> set ?ss"
    by (simp_all add: build_def)
  from d assms(2,3,4) have ne: "?ss ! j \<noteq> ?ss ! i"
    by (simp add: build_def nth_eq_iff_index_eq)
  from assms(5) have x: "x \<in> set (scene_fp h (?ss ! i))" by (simp add: build_def)
  note f = store_frame [OF w mi x]
  from f(1) [OF mj ne, of ob] f(2) [of ob] f(3) f(4) [of ob] show ?thesis
    by (simp add: build_def)
qed

text \<open>
  On the script with a sprite: the sprite dict of the first scene is replaced by an
  empty dict.  The first scene reads differently, the second scene and the running
  sprite dict read as before.
\<close>

theorem snapshots_share_nothing_witness:
  "run sprite_script = (fst (run sprite_script), snd (run sprite_script))
   \<and> list_items (fst (run sprite_script)) (build (snd (run sprite_script))) = [6, 12]
   \<and> 4 \<in> set (scene_fp (fst (run sprite_script)) 6)
   \<and> read_scene (store (fst (run sprite_script)) 4 (SpriteDict [])) 6
       \<noteq> read_scene (fst (run sprite_script)) 6
   \<and> read_scene (store (fst (run sprite_script)) 4 (SpriteDict [])) 12
       = read_scene (fst (run sprite_script)) 12
   \<and> read_scene (fst (run sprite_script)) 12 \<noteq> None
   \<and> read_dict (store (fst (run sprite_script)) 4 (SpriteDict []))
         (current_sprites (snd (run sprite_script)))
       = read_dict (fst (run sprite_script)) (current_sprites (snd (run sprite_script)))
   \<and> read_dict (fst (run sprite_script)) (current_sprites (snd (run sprite_script))) \<noteq> None"
proof -
  let ?h = "fst (run sprite_script)"
  let ?b = "snd (run sprite_script)"
  have r: "run sprite_script = (?h, ?b)" by simp
  have l: "list_items ?h (build ?b) = [6, 12]" by code_simp
  have f: "scene_fp ?h 6 = [6, 4, 3, 5]" by code_simp
  have c: "map_option (\<lambda>s. map fst (characters s)) (read_scene (store ?h 4 (SpriteDict [])) 6)
             \<noteq> map_option (\<lambda>s. map fst (characters s)) (read_scene ?h 6)"
    by code_simp
  then have c': "read_scene (store ?h 4 (SpriteDict [])) 6 \<noteq> read_scene ?h 6" by auto
  have i: "0 < length (list_items ?h (build ?b))" and j: "1 < length (list_items ?h (build ?b))"
    and ij: "(0::nat) \<noteq> 1"
    using l by simp_all
  have x: "4 \<in> set (scene_fp ?h (list_items ?h (build ?b) ! 0))" using l f by simp
  from snapshots_share_nothing [OF r i j ij x, of "SpriteDict []"] l
  have "read_scene (store ?h 4 (SpriteDict [])) 12 = read_scene ?h 12
       \<and> read_scene ?h 12 \<noteq> None
       \<and> read_dict (store ?h 4 (SpriteDict [])) (current_sprites ?b)
           = read_dict ?h (current_sprites ?b)
       \<and> read_dict ?h (current_sprites ?b) \<noteq> None"
    by simp
  with r l f c' show ?thesis by simp
qed

end
